theory Spec2Isabelle
  imports Main "HOL-Library.AList"
begin

section \<open>Data model of the toast provider (types.ts)\<close>

datatype ToastType = Success | Error | Warning | Info | Loading

datatype ToastPosition =
  TopLeft | TopCenter | TopRight | BottomLeft | BottomCenter | BottomRight

datatype ToastVariant = Filled | Outlined | Minimal

text \<open>
  A \<^verbatim>\<open>ReactNode\<close> payload is opaque to the provider and is kept as a string.
  A caller-supplied closure (\<^verbatim>\<open>onClose\<close>, \<^verbatim>\<open>action.onClick\<close>) is represented by
  a token naming it; invoking \<^verbatim>\<open>toast.onClose()\<close> is recorded in the log
  \<open>closeLog\<close> of the provider state, together with the id of the toast on whose
  behalf the call was made.
\<close>

type_synonym node = string

type_synonym closure = nat

record ToastOptions =
  opt_type :: "ToastType option"
  opt_duration :: "int option"
  opt_dismissible :: "bool option"
  opt_position :: "ToastPosition option"
  opt_variant :: "ToastVariant option"
  opt_icon :: "node option"
  opt_action :: "(string \<times> closure) option"
  opt_data :: "string option"
  opt_onClose :: "closure option"
  opt_id :: "string option"

record Toast =
  toast_id :: string
  message :: node
  toast_type :: ToastType
  duration :: int
  dismissible :: bool
  position :: ToastPosition
  variant :: ToastVariant
  icon :: "node option"
  action :: "(string \<times> closure) option"
  data :: "string option"
  onClose :: "closure option"
  createdAt :: nat
  visible :: bool
  removing :: bool

record ToastConfig =
  defaultDuration :: int
  defaultPosition :: ToastPosition
  defaultVariant :: ToastVariant
  maxToasts :: int
  pauseOnHover :: bool
  pauseOnFocusLoss :: bool
  gap :: int
  offset :: "int \<times> int"

definition DEFAULT_CONFIG :: ToastConfig where
  "DEFAULT_CONFIG =
     \<lparr> defaultDuration = 4000, defaultPosition = TopRight, defaultVariant = Filled,
       maxToasts = 5, pauseOnHover = True, pauseOnFocusLoss = True, gap = 8,
       offset = (16, 16) \<rparr>"

definition noOptions :: ToastOptions where
  "noOptions =
     \<lparr> opt_type = None, opt_duration = None, opt_dismissible = None, opt_position = None,
       opt_variant = None, opt_icon = None, opt_action = None, opt_data = None,
       opt_onClose = None, opt_id = None \<rparr>"

section \<open>The host: clock and timers\<close>

text \<open>
  The two closures the provider hands to \<^verbatim>\<open>setTimeout\<close>: the one of \<^verbatim>\<open>setTimer\<close>,
  which calls \<^verbatim>\<open>dismiss(id)\<close>, and the one of \<^verbatim>\<open>dismiss\<close>, which runs after the
  exit animation, calls \<^verbatim>\<open>onClose\<close> and deletes the toast.
\<close>

datatype TimerCallback = AutoDismiss string | Purge string

record Timer =
  handle :: nat
  due :: nat
  callback :: TimerCallback

text \<open>
  The state of the provider and of the host it runs on: the React state \<^verbatim>\<open>toasts\<close>,
  the map \<^verbatim>\<open>timersRef.current\<close> from toast id to timer handle (an association list in
  insertion order, as a JavaScript \<^verbatim>\<open>Map\<close>), the host's queue of pending timers in the
  order they were scheduled, the next handle the host gives out, the clock
  (\<^verbatim>\<open>Date.now()\<close>, in milliseconds), and the log of \<^verbatim>\<open>onClose\<close> invocations.
\<close>

record ProviderState =
  toasts :: "Toast list"
  timersRef :: "(string \<times> nat) list"
  pending :: "Timer list"
  nextHandle :: nat
  clock :: nat
  closeLog :: "(string \<times> closure) list"

definition initialState :: ProviderState where
  "initialState =
     \<lparr> toasts = [], timersRef = [], pending = [], nextHandle = 1, clock = 0,
       closeLog = [] \<rparr>"

text \<open>
  The delay the host waits for. A delay above \<open>2\<^sup>3\<^sup>1 - 1\<close> ms does not fit the host's
  timer: Node.js and the fake timers of the test suite (\<^verbatim>\<open>vi.useFakeTimers\<close>) take it as
  1 ms. The provider passes whole positive delays only.
\<close>

definition TIMEOUT_MAX :: nat where
  "TIMEOUT_MAX = 2147483647"

definition hostDelay :: "nat \<Rightarrow> nat" where
  "hostDelay delay = (if TIMEOUT_MAX < delay then 1 else delay)"

definition setTimeout :: "TimerCallback \<Rightarrow> nat \<Rightarrow> ProviderState \<Rightarrow> nat \<times> ProviderState" where
  "setTimeout cb delay s =
     (nextHandle s,
      s\<lparr> pending := pending s @
           [\<lparr> handle = nextHandle s, due = clock s + hostDelay delay, callback = cb \<rparr>],
         nextHandle := Suc (nextHandle s) \<rparr>)"

definition clearTimeout :: "nat \<Rightarrow> ProviderState \<Rightarrow> ProviderState" where
  "clearTimeout h s = s\<lparr> pending := filter (\<lambda>t. handle t \<noteq> h) (pending s) \<rparr>"

section \<open>The provider (context.tsx)\<close>

fun decimal :: "nat \<Rightarrow> string" where
  "decimal n =
     (if n < 10 then [char_of (48 + n)]
      else decimal (n div 10) @ [char_of (48 + n mod 10)])"

declare decimal.simps [simp del]

text \<open>
  \<^verbatim>\<open>generateToastId\<close>: the clock reading and a random suffix; the suffix
  (\<^verbatim>\<open>Math.random().toString(36).substr(2, 9)\<close>) is an input of the model.
\<close>

definition generateToastId :: "nat \<Rightarrow> string \<Rightarrow> string" where
  "generateToastId now rnd = ''toast-'' @ decimal now @ ''-'' @ rnd"

definition clearTimer :: "string \<Rightarrow> ProviderState \<Rightarrow> ProviderState" where
  "clearTimer i s =
     (case map_of (timersRef s) i of
        None \<Rightarrow> s
      | Some h \<Rightarrow> (clearTimeout h s)\<lparr> timersRef := AList.delete i (timersRef s) \<rparr>)"

text \<open>
  \<^verbatim>\<open>dismiss\<close>: the expiry timer is cleared, every toast with the id is marked
  \<^verbatim>\<open>removing\<close>, and the purge closure is scheduled 300 ms later; the handle that
  \<^verbatim>\<open>setTimeout\<close> returns for it is dropped.
\<close>

definition markRemoving :: "string \<Rightarrow> Toast \<Rightarrow> Toast" where
  "markRemoving i t = (if toast_id t = i then t\<lparr> removing := True \<rparr> else t)"

definition dismiss :: "string \<Rightarrow> ProviderState \<Rightarrow> ProviderState" where
  "dismiss i s =
     (let s1 = clearTimer i s;
          s2 = s1\<lparr> toasts := map (markRemoving i) (toasts s1) \<rparr>
      in snd (setTimeout (Purge i) 300 s2))"

text \<open>The closure scheduled by \<^verbatim>\<open>dismiss\<close>, run by the host 300 ms later.\<close>

definition purge :: "string \<Rightarrow> ProviderState \<Rightarrow> ProviderState" where
  "purge i s =
     (let called =
            (case find (\<lambda>t. toast_id t = i) (toasts s) of
               None \<Rightarrow> []
             | Some t \<Rightarrow> (case onClose t of None \<Rightarrow> [] | Some f \<Rightarrow> [(toast_id t, f)]))
      in s\<lparr> closeLog := closeLog s @ called,
            toasts := filter (\<lambda>t. toast_id t \<noteq> i) (toasts s) \<rparr>)"

definition setTimer :: "string \<Rightarrow> int \<Rightarrow> ProviderState \<Rightarrow> ProviderState" where
  "setTimer i d s =
     (if d \<le> 0 then s
      else
        (let s1 = clearTimer i s;
             (h, s2) = setTimeout (AutoDismiss i) (nat d) s1
         in s2\<lparr> timersRef := AList.update i h (timersRef s2) \<rparr>))"

text \<open>\<^verbatim>\<open>Array.prototype.slice\<close> on integer arguments, negative ones counting from the end.\<close>

definition sliceIndex :: "int \<Rightarrow> nat \<Rightarrow> nat" where
  "sliceIndex k n = (if k < 0 then nat (max (int n + k) 0) else min (nat k) n)"

definition slice :: "int \<Rightarrow> int \<Rightarrow> 'a list \<Rightarrow> 'a list" where
  "slice a b xs =
     (let n = length xs; lo = sliceIndex a n; hi = sliceIndex b n
      in take (hi - lo) (drop lo xs))"

definition sliceFrom :: "int \<Rightarrow> 'a list \<Rightarrow> 'a list" where
  "sliceFrom a xs = drop (sliceIndex a (length xs)) xs"

definition newToast :: "ToastConfig \<Rightarrow> string \<Rightarrow> node \<Rightarrow> ToastOptions \<Rightarrow> nat \<Rightarrow> Toast" where
  "newToast cfg rnd msg options now =
     \<lparr> toast_id =
         (case opt_id options of
            None \<Rightarrow> generateToastId now rnd
          | Some i \<Rightarrow> if i = [] then generateToastId now rnd else i),
       message = msg,
       toast_type = (case opt_type options of None \<Rightarrow> Info | Some ty \<Rightarrow> ty),
       duration = (case opt_duration options of None \<Rightarrow> defaultDuration cfg | Some d \<Rightarrow> d),
       dismissible = (case opt_dismissible options of None \<Rightarrow> True | Some b \<Rightarrow> b),
       position = (case opt_position options of None \<Rightarrow> defaultPosition cfg | Some p \<Rightarrow> p),
       variant = (case opt_variant options of None \<Rightarrow> defaultVariant cfg | Some v \<Rightarrow> v),
       icon = opt_icon options,
       action = opt_action options,
       data = opt_data options,
       onClose = opt_onClose options,
       createdAt = now,
       visible = True,
       removing = False \<rparr>"

text \<open>The state updater of \<^verbatim>\<open>createToast\<close>: insertion at the front of the position's
  toasts, and the limit per position.\<close>

definition insertToast :: "ToastConfig \<Rightarrow> Toast \<Rightarrow> ProviderState \<Rightarrow> ProviderState" where
  "insertToast cfg toast s =
     (let prev = toasts s;
          samePosition = filter (\<lambda>t. position t = position toast) prev;
          otherPositions = filter (\<lambda>t. position t \<noteq> position toast) prev;
          newPositionToasts = toast # samePosition
      in if int (length newPositionToasts) > maxToasts cfg
         then
           (let toRemove = sliceFrom (maxToasts cfg) newPositionToasts;
                s1 = fold (\<lambda>t. clearTimer (toast_id t)) toRemove s
            in s1\<lparr> toasts := slice 0 (maxToasts cfg) newPositionToasts @ otherPositions \<rparr>)
         else s\<lparr> toasts := newPositionToasts @ otherPositions \<rparr>)"

definition createToast ::
  "ToastConfig \<Rightarrow> string \<Rightarrow> node \<Rightarrow> ToastOptions \<Rightarrow> ProviderState \<Rightarrow> string \<times> ProviderState" where
  "createToast cfg rnd msg options s =
     (let toast = newToast cfg rnd msg options (clock s);
          s1 = insertToast cfg toast s;
          s2 = (if duration toast > 0 then setTimer (toast_id toast) (duration toast) s1 else s1)
      in (toast_id toast, s2))"

text \<open>
  React runs the updater that is passed to \<^verbatim>\<open>setToasts\<close> at the call when no update of
  the provider is waiting to be rendered, and otherwise when it renders the provider
  next, which is after the operation has returned. The updaters of \<^verbatim>\<open>dismiss\<close>,
  \<^verbatim>\<open>dismissAll\<close>, \<^verbatim>\<open>update\<close> and of the purge closure read and write the list and the
  log only, and nothing else in those operations does: for them the two schedules give
  the same state. The updater of \<^verbatim>\<open>createToast\<close> clears timers, so that operation has
  two forms: \<^verbatim>\<open>createToast\<close> above, where the updater runs at the call, and the one
  below, where it runs after \<^verbatim>\<open>setTimer\<close>. Every operation is taken to be rendered
  before the next one begins.
\<close>

definition createToastDeferred ::
  "ToastConfig \<Rightarrow> string \<Rightarrow> node \<Rightarrow> ToastOptions \<Rightarrow> ProviderState \<Rightarrow> string \<times> ProviderState" where
  "createToastDeferred cfg rnd msg options s =
     (let toast = newToast cfg rnd msg options (clock s);
          s1 = (if duration toast > 0 then setTimer (toast_id toast) (duration toast) s else s);
          s2 = insertToast cfg toast s1
      in (toast_id toast, s2))"

definition dismissAll :: "ProviderState \<Rightarrow> ProviderState" where
  "dismissAll s =
     (let s1 = (fold clearTimeout (map snd (timersRef s)) s)\<lparr> timersRef := [] \<rparr>;
          called = concat (map (\<lambda>t. case onClose t of None \<Rightarrow> [] | Some f \<Rightarrow> [(toast_id t, f)])
                     (toasts s1))
      in s1\<lparr> closeLog := closeLog s1 @ called, toasts := [] \<rparr>)"

text \<open>The object spread of \<^verbatim>\<open>update\<close>: the message is replaced, every option that is
  present overwrites the field of the same name (the id among them).\<close>

definition mergeOptions :: "node \<Rightarrow> ToastOptions \<Rightarrow> Toast \<Rightarrow> Toast" where
  "mergeOptions msg options t =
     t\<lparr> toast_id := (case opt_id options of None \<Rightarrow> toast_id t | Some i \<Rightarrow> i),
        message := msg,
        toast_type := (case opt_type options of None \<Rightarrow> toast_type t | Some ty \<Rightarrow> ty),
        duration := (case opt_duration options of None \<Rightarrow> duration t | Some d \<Rightarrow> d),
        dismissible := (case opt_dismissible options of None \<Rightarrow> dismissible t | Some b \<Rightarrow> b),
        position := (case opt_position options of None \<Rightarrow> position t | Some p \<Rightarrow> p),
        variant := (case opt_variant options of None \<Rightarrow> variant t | Some v \<Rightarrow> v),
        icon := (case opt_icon options of None \<Rightarrow> icon t | Some x \<Rightarrow> Some x),
        action := (case opt_action options of None \<Rightarrow> action t | Some x \<Rightarrow> Some x),
        data := (case opt_data options of None \<Rightarrow> data t | Some x \<Rightarrow> Some x),
        onClose := (case opt_onClose options of None \<Rightarrow> onClose t | Some x \<Rightarrow> Some x) \<rparr>"

definition update :: "string \<Rightarrow> node \<Rightarrow> ToastOptions \<Rightarrow> ProviderState \<Rightarrow> ProviderState" where
  "update i msg options s =
     (let s1 = s\<lparr> toasts := map (\<lambda>t. if toast_id t = i then mergeOptions msg options t else t)
                               (toasts s) \<rparr>
      in case opt_duration options of
           None \<Rightarrow> s1
         | Some d \<Rightarrow> setTimer i d s1)"

section \<open>The host's event loop\<close>

text \<open>
  The pending timer that runs next: the earliest due one, the one scheduled first
  among those due at the same instant.
\<close>

fun earliest :: "Timer list \<Rightarrow> Timer option" where
  "earliest [] = None"
| "earliest (t # ts) =
     (case earliest ts of
        None \<Rightarrow> Some t
      | Some u \<Rightarrow> if due u < due t then Some u else Some t)"

definition nextTimer :: "nat \<Rightarrow> Timer list \<Rightarrow> Timer option" where
  "nextTimer limit ts = earliest (filter (\<lambda>t. due t \<le> limit) ts)"

definition fire :: "Timer \<Rightarrow> ProviderState \<Rightarrow> ProviderState" where
  "fire t s =
     (let s1 = s\<lparr> pending := remove1 t (pending s), clock := max (clock s) (due t) \<rparr>
      in case callback t of
           AutoDismiss i \<Rightarrow> dismiss i s1
         | Purge i \<Rightarrow> purge i s1)"

text \<open>
  Running a timer never schedules more than one further timer, and only an expiry
  timer schedules one (the purge): the weighted number of pending timers decreases
  with every timer that runs, so the event loop comes to rest.
\<close>

fun weight :: "Timer \<Rightarrow> nat" where
  "weight t = (case callback t of AutoDismiss _ \<Rightarrow> 2 | Purge _ \<Rightarrow> 1)"

definition load :: "Timer list \<Rightarrow> nat" where
  "load ts = sum_list (map weight ts)"

text \<open>
  The host runs, one after the other, every timer that is due up to the instant
  \<open>limit\<close>, timers scheduled on the way included, and then sets the clock to it.
\<close>

function runUntil :: "nat \<Rightarrow> ProviderState \<Rightarrow> ProviderState" where
  "runUntil limit s =
     (case nextTimer limit (pending s) of
        None \<Rightarrow> s\<lparr> clock := max (clock s) limit \<rparr>
      | Some t \<Rightarrow> runUntil limit (fire t s))"
  by pat_completeness auto

termination
proof (relation "measure (\<lambda>(limit, s). load (pending s))")
  show "wf (measure (\<lambda>(limit, s). load (pending s)))" by simp
next
  fix limit :: nat and s :: ProviderState and t :: Timer
  assume n: "nextTimer limit (pending s) = Some t"
  have "earliest ts = Some e \<Longrightarrow> e \<in> set ts" for ts e
    by (induction ts arbitrary: e) (auto split: option.splits if_splits)
  from this [of "filter (\<lambda>t. due t \<le> limit) (pending s)" t] n
  have m: "t \<in> set (pending s)" by (simp add: nextTimer_def)
  have less: "load (filter P ts) \<le> load ts" for P ts
    unfolding load_def by (induction ts) auto
  have "e \<in> set ts \<Longrightarrow> load (remove1 e ts) + weight e = load ts" for e ts
    unfolding load_def by (induction ts) auto
  from this [OF m] have r: "load (remove1 t (pending s)) + weight t = load (pending s)" .
  let ?s1 = "s\<lparr> pending := remove1 t (pending s), clock := max (clock s) (due t) \<rparr>"
  have "load (pending (fire t s)) < load (pending s)"
  proof (cases "callback t")
    case (AutoDismiss i)
    have "load (pending (clearTimer i ?s1)) \<le> load (pending ?s1)"
      by (cases "map_of (timersRef ?s1) i") (simp_all add: clearTimer_def clearTimeout_def less)
    moreover have "load (pending (dismiss i ?s1)) = load (pending (clearTimer i ?s1)) + 1"
      by (simp add: dismiss_def setTimeout_def Let_def load_def)
    ultimately show ?thesis using r AutoDismiss by (simp add: fire_def)
  next
    case (Purge i)
    then show ?thesis using r by (simp add: fire_def purge_def Let_def)
  qed
  then show "((limit, fire t s), (limit, s)) \<in> measure (\<lambda>(limit, s). load (pending s))"
    by simp
qed

declare runUntil.simps [simp del]

definition advanceTimersByTime :: "nat \<Rightarrow> ProviderState \<Rightarrow> ProviderState" where
  "advanceTimersByTime d s = runUntil (clock s + d) s"

section \<open>Runs of the provider\<close>

text \<open>
  What can happen to a provider: a call of its API (\<^verbatim>\<open>custom\<close> is \<^verbatim>\<open>createToast\<close>;
  \<^verbatim>\<open>success\<close>, \<^verbatim>\<open>error\<close>, \<^verbatim>\<open>warning\<close>, \<^verbatim>\<open>info\<close> and \<^verbatim>\<open>loading\<close> are
  \<^verbatim>\<open>createToast\<close> with the type set), or time passing. \<open>CreateDeferred\<close> is a call
  of \<^verbatim>\<open>createToast\<close> whose updater React runs after the call has returned. The first
  argument of both is the random suffix that \<^verbatim>\<open>generateToastId\<close> draws.
\<close>

datatype Command =
  Create string node ToastOptions
| CreateDeferred string node ToastOptions
| Update string node ToastOptions
| Dismiss string
| DismissAll
| Advance nat

fun exec :: "ToastConfig \<Rightarrow> Command \<Rightarrow> ProviderState \<Rightarrow> ProviderState" where
  "exec cfg (Create rnd msg options) s = snd (createToast cfg rnd msg options s)"
| "exec cfg (CreateDeferred rnd msg options) s = snd (createToastDeferred cfg rnd msg options s)"
| "exec cfg (Update i msg options) s = update i msg options s"
| "exec cfg (Dismiss i) s = dismiss i s"
| "exec cfg DismissAll s = dismissAll s"
| "exec cfg (Advance d) s = advanceTimersByTime d s"

definition run :: "ToastConfig \<Rightarrow> Command list \<Rightarrow> ProviderState \<Rightarrow> ProviderState" where
  "run cfg cs s = fold (exec cfg) cs s"

definition ids :: "ProviderState \<Rightarrow> string list" where
  "ids s = map toast_id (toasts s)"

section \<open>Invariants, measures and relations on provider states\<close>

text \<open>
  The predicates and functions in which the properties of the provider are stated and
  proved: invariants of the states that the provider reaches, projections of a state on
  one id or one position, and relations between two states.
\<close>

subsection \<open>Well-formed states\<close>

text \<open>
  What holds of the timers in every state the provider can reach: a pending expiry
  timer is the one registered in \<^verbatim>\<open>timersRef\<close> under its id (\<open>tracked\<close>); handles
  in use are below the next one the host gives out (\<open>fresh\<close>); a pending timer whose
  handle is registered under an id is the expiry timer of that id (\<open>owned\<close>); and no
  two pending expiry timers are for the same id. The keys of \<^verbatim>\<open>timersRef\<close>, a
  \<^verbatim>\<open>Map\<close>, are distinct.
\<close>

fun expiryTargets :: "Timer list \<Rightarrow> string list" where
  "expiryTargets [] = []"
| "expiryTargets (t # ts) =
     (case callback t of
        AutoDismiss i \<Rightarrow> i # expiryTargets ts
      | Purge i \<Rightarrow> expiryTargets ts)"

definition tracked :: "ProviderState \<Rightarrow> bool" where
  "tracked s \<longleftrightarrow>
     (\<forall>t \<in> set (pending s). \<forall>i. callback t = AutoDismiss i \<longrightarrow>
        map_of (timersRef s) i = Some (handle t))"

definition fresh :: "ProviderState \<Rightarrow> bool" where
  "fresh s \<longleftrightarrow>
     (\<forall>t \<in> set (pending s). handle t < nextHandle s) \<and>
     (\<forall>i h. map_of (timersRef s) i = Some h \<longrightarrow> h < nextHandle s)"

definition owned :: "ProviderState \<Rightarrow> bool" where
  "owned s \<longleftrightarrow>
     (\<forall>t \<in> set (pending s). \<forall>i. map_of (timersRef s) i = Some (handle t) \<longrightarrow>
        callback t = AutoDismiss i)"

definition wellFormed :: "ProviderState \<Rightarrow> bool" where
  "wellFormed s \<longleftrightarrow>
     tracked s \<and> fresh s \<and> owned s \<and> distinct (expiryTargets (pending s)) \<and>
     distinct (map fst (timersRef s))"

subsection \<open>Timers of one kind\<close>

fun isPurge :: "Timer \<Rightarrow> bool" where
  "isPurge t = (case callback t of Purge _ \<Rightarrow> True | AutoDismiss _ \<Rightarrow> False)"

definition timersOf :: "TimerCallback \<Rightarrow> ProviderState \<Rightarrow> Timer list" where
  "timersOf cb s = filter (\<lambda>t. callback t = cb) (pending s)"

subsection \<open>How often a toast is closed\<close>

definition alive :: "string \<Rightarrow> ProviderState \<Rightarrow> nat" where
  "alive x s = length (filter (\<lambda>t. toast_id t = x) (toasts s))"

definition closeCalls :: "string \<Rightarrow> ProviderState \<Rightarrow> nat" where
  "closeCalls x s = length (filter (\<lambda>c. fst c = x) (closeLog s))"

fun closing :: "Command \<Rightarrow> bool" where
  "closing (Dismiss i) = True"
| "closing DismissAll = True"
| "closing (Advance d) = True"
| "closing (Create rnd msg options) = False"
| "closing (CreateDeferred rnd msg options) = False"
| "closing (Update i msg options) = False"

subsection \<open>The ids of the toasts in the list\<close>

text \<open>
  The ids that \<^verbatim>\<open>generateToastId\<close> builds begin with \<^verbatim>\<open>toast-\<close>.
\<close>

definition reserved :: "string \<Rightarrow> bool" where
  "reserved i \<longleftrightarrow> take 6 i = ''toast-''"

text \<open>
  The id that the caller of \<^verbatim>\<open>createToast\<close> supplies: \<^verbatim>\<open>options.id\<close> unless it is
  missing or the empty string, in which case \<^verbatim>\<open>options.id || generateToastId()\<close>
  generates one.
\<close>

definition supplied :: "ToastOptions \<Rightarrow> string option" where
  "supplied options =
     (case opt_id options of None \<Rightarrow> None | Some i \<Rightarrow> if i = [] then None else Some i)"

text \<open>
  What the callers have to see to, the provider checking none of it: an id supplied to
  \<^verbatim>\<open>createToast\<close> is the id of no toast of the list and is not in the form of the generated
  ones, and \<^verbatim>\<open>update\<close> passes no id among its options, or the one it is called with.
\<close>

fun admissible :: "Command \<Rightarrow> ProviderState \<Rightarrow> bool" where
  "admissible (Create rnd msg options) s =
     (case supplied options of None \<Rightarrow> True | Some i \<Rightarrow> i \<notin> set (ids s) \<and> \<not> reserved i)"
| "admissible (CreateDeferred rnd msg options) s =
     (case supplied options of None \<Rightarrow> True | Some i \<Rightarrow> i \<notin> set (ids s) \<and> \<not> reserved i)"
| "admissible (Update i msg options) s = (opt_id options = None \<or> opt_id options = Some i)"
| "admissible (Dismiss i) s = True"
| "admissible DismissAll s = True"
| "admissible (Advance d) s = True"

text \<open>
  What \<^verbatim>\<open>generateToastId\<close> reads when \<^verbatim>\<open>createToast\<close> calls it: the clock and the random
  suffix; and the readings of all the calls of a run, in their order.
\<close>

fun draw :: "Command \<Rightarrow> ProviderState \<Rightarrow> (nat \<times> string) list" where
  "draw (Create rnd msg options) s =
     (case supplied options of None \<Rightarrow> [(clock s, rnd)] | Some i \<Rightarrow> [])"
| "draw (CreateDeferred rnd msg options) s =
     (case supplied options of None \<Rightarrow> [(clock s, rnd)] | Some i \<Rightarrow> [])"
| "draw (Update i msg options) s = []"
| "draw (Dismiss i) s = []"
| "draw DismissAll s = []"
| "draw (Advance d) s = []"

fun suppliedFresh :: "ToastConfig \<Rightarrow> Command list \<Rightarrow> ProviderState \<Rightarrow> bool" where
  "suppliedFresh cfg [] s = True"
| "suppliedFresh cfg (c # cs) s = (admissible c s \<and> suppliedFresh cfg cs (exec cfg c s))"

fun draws :: "ToastConfig \<Rightarrow> Command list \<Rightarrow> ProviderState \<Rightarrow> (nat \<times> string) list" where
  "draws cfg [] s = []"
| "draws cfg (c # cs) s = draw c s @ draws cfg cs (exec cfg c s)"

subsection \<open>The toasts of one position\<close>

definition slot :: "ToastPosition \<Rightarrow> ProviderState \<Rightarrow> Toast list" where
  "slot p s = filter (\<lambda>t. position t = p) (toasts s)"

fun isCreate :: "Command \<Rightarrow> bool" where
  "isCreate (Create rnd msg options) = True"
| "isCreate (CreateDeferred rnd msg options) = True"
| "isCreate (Update i msg options) = False"
| "isCreate (Dismiss i) = False"
| "isCreate DismissAll = False"
| "isCreate (Advance d) = False"

text \<open>The toasts that the \<^verbatim>\<open>createToast\<close> calls of a run build, in the order of the calls,
  when the clock reads \<open>now\<close>.\<close>

fun created :: "ToastConfig \<Rightarrow> nat \<Rightarrow> Command list \<Rightarrow> Toast list" where
  "created cfg now [] = []"
| "created cfg now (Create rnd msg options # cs) =
     newToast cfg rnd msg options now # created cfg now cs"
| "created cfg now (CreateDeferred rnd msg options # cs) =
     newToast cfg rnd msg options now # created cfg now cs"
| "created cfg now (Update i msg options # cs) = created cfg now cs"
| "created cfg now (Dismiss i # cs) = created cfg now cs"
| "created cfg now (DismissAll # cs) = created cfg now cs"
| "created cfg now (Advance d # cs) = created cfg now cs"

subsection \<open>Timers are never overdue\<close>

text \<open>In every state the provider reaches, no pending timer is due before the clock.\<close>

definition punctual :: "ProviderState \<Rightarrow> bool" where
  "punctual s \<longleftrightarrow> (\<forall>t \<in> set (pending s). clock s \<le> due t)"

subsection \<open>What concerns one id\<close>

fun target :: "Timer \<Rightarrow> string" where
  "target t = (case callback t of AutoDismiss i \<Rightarrow> i | Purge i \<Rightarrow> i)"

definition toastsOf :: "string \<Rightarrow> ProviderState \<Rightarrow> Toast list" where
  "toastsOf x s = filter (\<lambda>t. toast_id t = x) (toasts s)"

definition timersFor :: "string \<Rightarrow> ProviderState \<Rightarrow> Timer list" where
  "timersFor x s = filter (\<lambda>t. target t = x) (pending s)"

definition closedOf :: "string \<Rightarrow> ProviderState \<Rightarrow> (string \<times> closure) list" where
  "closedOf x s = filter (\<lambda>c. fst c = x) (closeLog s)"

subsection \<open>The life of one toast\<close>

text \<open>
  Three stages of a toast with the id \<open>x\<close> that nothing but timers acts on: its expiry
  timer \<open>e\<close> is pending (\<open>awaiting\<close>); it is \<^verbatim>\<open>removing\<close> and its purge timer is pending,
  due at \<open>T\<close> (\<open>leaving\<close>); it is not in the list any more (\<open>gone\<close>). The last argument
  but one is the list of the \<^verbatim>\<open>onClose\<close> calls logged for \<open>x\<close>.
\<close>

definition awaiting ::
  "string \<Rightarrow> Toast \<Rightarrow> Timer \<Rightarrow> (string \<times> closure) list \<Rightarrow> ProviderState \<Rightarrow> bool" where
  "awaiting x toast e log u \<longleftrightarrow>
     wellFormed u \<and> punctual u \<and> toastsOf x u = [toast] \<and> timersFor x u = [e] \<and>
     closedOf x u = log"

definition leaving ::
  "string \<Rightarrow> Toast \<Rightarrow> nat \<Rightarrow> (string \<times> closure) list \<Rightarrow> ProviderState \<Rightarrow> bool" where
  "leaving x toast T log u \<longleftrightarrow>
     wellFormed u \<and> punctual u \<and> toastsOf x u = [toast\<lparr> removing := True \<rparr>] \<and>
     (\<exists>h. timersFor x u = [\<lparr> handle = h, due = T, callback = Purge x \<rparr>]) \<and>
     closedOf x u = log"

definition gone :: "string \<Rightarrow> (string \<times> closure) list \<Rightarrow> ProviderState \<Rightarrow> bool" where
  "gone x log u \<longleftrightarrow> toastsOf x u = [] \<and> closedOf x u = log"

definition closeCall :: "Toast \<Rightarrow> (string \<times> closure) list" where
  "closeCall toast = (case onClose toast of None \<Rightarrow> [] | Some f \<Rightarrow> [(toast_id toast, f)])"

subsection \<open>Runs that differ in timers without effect\<close>

text \<open>
  What the event loop can tell of a pending timer: when it is due, what it calls, and,
  for an expiry timer, its handle, by which \<^verbatim>\<open>clearTimer\<close> cancels it. The handle of
  a purge timer is known to nobody.
\<close>

type_synonym timerKey = "nat \<times> TimerCallback \<times> nat option"

definition tkey :: "Timer \<Rightarrow> timerKey" where
  "tkey t =
     (due t, callback t,
      (case callback t of AutoDismiss i \<Rightarrow> Some (handle t) | Purge i \<Rightarrow> None))"

text \<open>What running a timer does to the keys of the pending timers.\<close>

fun keyStep :: "timerKey \<Rightarrow> timerKey list \<Rightarrow> timerKey list" where
  "keyStep (d, AutoDismiss i, h) ks =
     filter (\<lambda>k. snd (snd k) \<noteq> h) (remove1 (d, AutoDismiss i, h) ks) @ [(d + 300, Purge i, None)]"
| "keyStep (d, Purge i, h) ks = remove1 (d, Purge i, h) ks"

subsection \<open>Timers for an id that no toast has\<close>

text \<open>
  The first state has, besides the timers of the second, timers for the id \<open>j\<close>, which
  no toast of the list has; the second has no timer for \<open>j\<close>. List and log are the same.
\<close>

definition aside :: "string \<Rightarrow> ProviderState \<Rightarrow> ProviderState \<Rightarrow> bool" where
  "aside j u' u \<longleftrightarrow>
     wellFormed u' \<and> wellFormed u \<and> punctual u' \<and> punctual u \<and>
     toasts u' = toasts u \<and> closeLog u' = closeLog u \<and> j \<notin> set (ids u') \<and>
     (\<forall>t \<in> set (pending u). target t \<noteq> j) \<and>
     map tkey (filter (\<lambda>t. target t \<noteq> j) (pending u')) = map tkey (pending u)"

definition withoutTimersFor :: "string \<Rightarrow> ProviderState \<Rightarrow> ProviderState" where
  "withoutTimersFor j u = u\<lparr> pending := filter (\<lambda>t. target t \<noteq> j) (pending u) \<rparr>"

subsection \<open>Handles in the order of scheduling\<close>

text \<open>
  The host gives out increasing handles and appends to its queue: in every state the
  provider reaches, the handles of the pending timers increase along the queue and are
  below the next handle.
\<close>

definition ordered :: "ProviderState \<Rightarrow> bool" where
  "ordered s \<longleftrightarrow>
     sorted_wrt (\<lambda>a b. handle a < handle b) (pending s) \<and>
     (\<forall>t \<in> set (pending s). handle t < nextHandle s)"

subsection \<open>A second purge timer behind the first\<close>

text \<open>
  The first state has, besides the timers of the second, a purge timer for the id \<open>i\<close>
  with the handle \<open>e\<close>; as long as a toast of the list has the id \<open>i\<close>, another purge
  timer for \<open>i\<close> is pending that is not due later and was scheduled before. List, log and
  \<^verbatim>\<open>timersRef\<close> are the same.
\<close>

definition twin :: "nat \<Rightarrow> string \<Rightarrow> ProviderState \<Rightarrow> ProviderState \<Rightarrow> bool" where
  "twin e i u' u \<longleftrightarrow>
     wellFormed u' \<and> wellFormed u \<and> punctual u' \<and> punctual u \<and> ordered u' \<and>
     toasts u' = toasts u \<and> closeLog u' = closeLog u \<and> timersRef u' = timersRef u \<and>
     e < nextHandle u' \<and>
     map tkey (filter (\<lambda>t. handle t \<noteq> e) (pending u')) = map tkey (pending u) \<and>
     (\<forall>t \<in> set (pending u'). handle t = e \<longrightarrow>
        callback t = Purge i \<and>
        (i \<in> set (ids u') \<longrightarrow>
           (\<exists>p \<in> set (pending u'). callback p = Purge i \<and> due p \<le> due t \<and> handle p < e)))"

section \<open>Example runs\<close>

text \<open>
  Concrete configurations, command lists and states, computed from the definitions above,
  on which the theorems below are instantiated.
\<close>

definition updatedToZero :: ProviderState where
  "updatedToZero =
     run DEFAULT_CONFIG
       [Create [] ''a'' (noOptions\<lparr> opt_id := Some ''x'', opt_duration := Some 1000 \<rparr>),
        Update ''x'' ''b'' (noOptions\<lparr> opt_duration := Some 0 \<rparr>)]
       initialState"

definition dismissedThenAll :: ProviderState where
  "dismissedThenAll =
     run DEFAULT_CONFIG
       [Create [] ''a'' (noOptions\<lparr> opt_id := Some ''x'' \<rparr>),
        Create [] ''b'' (noOptions\<lparr> opt_id := Some ''y'' \<rparr>),
        Dismiss ''x'', DismissAll]
       initialState"

definition threeToasts :: ProviderState where
  "threeToasts =
     run DEFAULT_CONFIG
       [Create [] ''first'' (noOptions\<lparr> opt_id := Some ''a'', opt_onClose := Some 1 \<rparr>),
        Create [] ''second'' (noOptions\<lparr> opt_id := Some ''b'', opt_onClose := Some 2,
                                         opt_position := Some BottomLeft \<rparr>),
        Create [] ''third'' (noOptions\<lparr> opt_id := Some ''c'', opt_onClose := Some 3 \<rparr>),
        Dismiss ''a'',
        Advance 100]
       initialState"

definition twiceDismissed :: ProviderState where
  "twiceDismissed =
     run DEFAULT_CONFIG
       [Create [] ''a'' (noOptions\<lparr> opt_id := Some ''x'' \<rparr>), Dismiss ''x'', Dismiss ''x'']
       initialState"

definition oneCreated :: ProviderState where
  "oneCreated =
     run DEFAULT_CONFIG
       [Create [] ''a'' (noOptions\<lparr> opt_id := Some ''x'', opt_duration := Some 1000 \<rparr>),
        Advance 200]
       initialState"

definition removingToast :: ProviderState where
  "removingToast =
     run DEFAULT_CONFIG
       [Create [] ''a'' (noOptions\<lparr> opt_id := Some ''x'', opt_onClose := Some 7 \<rparr>),
        Dismiss ''x'', Advance 100]
       initialState"

definition smallConfig :: ToastConfig where
  "smallConfig = DEFAULT_CONFIG\<lparr> maxToasts := 2 \<rparr>"

definition fullSlot :: "Command list" where
  "fullSlot =
     [Create [] ''one'' (noOptions\<lparr> opt_id := Some ''a'', opt_onClose := Some 1 \<rparr>),
      Create [] ''two'' (noOptions\<lparr> opt_id := Some ''b'', opt_onClose := Some 2 \<rparr>)]"

definition oneOther :: "Command list" where
  "oneOther = [Create [] ''first'' (noOptions\<lparr> opt_id := Some ''y'', opt_duration := Some 700 \<rparr>),
               Advance 100]"

definition staleTimer :: ProviderState where
  "staleTimer =
     run DEFAULT_CONFIG
       [Create [] ''first'' (noOptions\<lparr> opt_id := Some ''x'' \<rparr>), Dismiss ''x'', DismissAll]
       initialState"

definition timed :: ToastOptions where
  "timed = noOptions\<lparr> opt_id := Some ''x'', opt_duration := Some 1000, opt_onClose := Some 7 \<rparr>"

definition oneTimed :: ProviderState where
  "oneTimed =
     run DEFAULT_CONFIG
       [Create [] ''a'' (noOptions\<lparr> opt_id := Some ''x'', opt_duration := Some 1000,
                                    opt_onClose := Some 1 \<rparr>)]
       initialState"

definition twoToasts :: ProviderState where
  "twoToasts =
     run DEFAULT_CONFIG
       [Create [] ''a'' (noOptions\<lparr> opt_id := Some ''x'', opt_onClose := Some 1 \<rparr>),
        Create [] ''b'' (noOptions\<lparr> opt_id := Some ''y'', opt_duration := Some 200,
                                    opt_onClose := Some 2 \<rparr>)]
       initialState"

section \<open>Evaluation of runs\<close>

text \<open>The definitions by which a run from a given state is computed.\<close>

lemmas provider_defs =
  run_def advanceTimersByTime_def createToast_def createToastDeferred_def newToast_def insertToast_def setTimer_def
  clearTimer_def clearTimeout_def setTimeout_def dismiss_def markRemoving_def purge_def
  dismissAll_def update_def mergeOptions_def fire_def nextTimer_def slice_def sliceFrom_def
  sliceIndex_def generateToastId_def DEFAULT_CONFIG_def noOptions_def initialState_def
  Let_def runUntil.simps ids_def hostDelay_def TIMEOUT_MAX_def

lemma decimal_0: "decimal 0 = ''0''"
  by (subst decimal.simps) (simp add: char_of_def bit_0)

lemma hostDelay_300 [simp]: "hostDelay 300 = 300"
  by (simp add: hostDelay_def TIMEOUT_MAX_def)

lemma hostDelay_small: "d \<le> 2147483647 \<Longrightarrow> hostDelay d = d"
  by (simp add: hostDelay_def TIMEOUT_MAX_def)

lemma hostDelay_large: "2147483647 < d \<Longrightarrow> hostDelay d = 1"
  by (simp add: hostDelay_def TIMEOUT_MAX_def)

lemma hostDelay_positive: "0 < d \<Longrightarrow> 0 < hostDelay d"
  by (simp add: hostDelay_def)

section \<open>What each operation does to each component of the state\<close>

lemma earliest_in: "earliest ts = Some t \<Longrightarrow> t \<in> set ts"
  by (induction ts arbitrary: t) (auto split: option.splits if_splits)

lemma nextTimer_in: "nextTimer limit ts = Some t \<Longrightarrow> t \<in> set ts \<and> due t \<le> limit"
  unfolding nextTimer_def by (drule earliest_in) simp

lemma pending_clearTimer:
  "pending (clearTimer i s) =
     (case map_of (timersRef s) i of
        None \<Rightarrow> pending s
      | Some h \<Rightarrow> filter (\<lambda>t. handle t \<noteq> h) (pending s))"
  by (simp add: clearTimer_def clearTimeout_def split: option.splits)

lemma pending_dismiss:
  "pending (dismiss i s) =
     pending (clearTimer i s) @
       [\<lparr> handle = nextHandle (clearTimer i s), due = clock (clearTimer i s) + 300,
          callback = Purge i \<rparr>]"
  by (simp add: dismiss_def setTimeout_def Let_def)

lemma pending_purge: "pending (purge i s) = pending s"
  by (simp add: purge_def Let_def)

lemma clearTimer_fields [simp]:
  "toasts (clearTimer i s) = toasts s"
  "nextHandle (clearTimer i s) = nextHandle s"
  "clock (clearTimer i s) = clock s"
  "closeLog (clearTimer i s) = closeLog s"
  by (simp_all add: clearTimer_def clearTimeout_def split: option.splits)

lemma timersRef_clearTimer [simp]:
  "timersRef (clearTimer i s) = AList.delete i (timersRef s)"
proof (cases "map_of (timersRef s) i")
  case None
  then have "i \<notin> fst ` set (timersRef s)" by (simp add: map_of_eq_None_iff)
  with None show ?thesis by (simp add: clearTimer_def)
next
  case (Some h)
  then show ?thesis by (simp add: clearTimer_def clearTimeout_def)
qed

lemma dismiss_fields [simp]:
  "toasts (dismiss i s) = map (markRemoving i) (toasts s)"
  "timersRef (dismiss i s) = AList.delete i (timersRef s)"
  "nextHandle (dismiss i s) = Suc (nextHandle s)"
  "clock (dismiss i s) = clock s"
  "closeLog (dismiss i s) = closeLog s"
  by (simp_all add: dismiss_def setTimeout_def Let_def)

lemma purge_fields [simp]:
  "toasts (purge i s) = filter (\<lambda>t. toast_id t \<noteq> i) (toasts s)"
  "timersRef (purge i s) = timersRef s"
  "nextHandle (purge i s) = nextHandle s"
  "clock (purge i s) = clock s"
  by (simp_all add: purge_def Let_def)

lemma closeLog_purge:
  "closeLog (purge i s) =
     closeLog s @
       (case find (\<lambda>t. toast_id t = i) (toasts s) of
          None \<Rightarrow> []
        | Some t \<Rightarrow> (case onClose t of None \<Rightarrow> [] | Some f \<Rightarrow> [(toast_id t, f)]))"
  by (simp add: purge_def Let_def)

lemma toasts_fire:
  "toasts (fire t s) =
     (case callback t of
        AutoDismiss i \<Rightarrow> map (markRemoving i) (toasts s)
      | Purge i \<Rightarrow> filter (\<lambda>t. toast_id t \<noteq> i) (toasts s))"
  by (simp add: fire_def Let_def split: TimerCallback.splits)

lemma clock_fire [simp]: "clock (fire t s) = max (clock s) (due t)"
  by (simp add: fire_def Let_def split: TimerCallback.splits)

lemma closeLog_fire:
  "closeLog (fire t s) =
     (case callback t of
        AutoDismiss i \<Rightarrow> closeLog s
      | Purge i \<Rightarrow> closeLog (purge i s))"
  by (simp add: fire_def Let_def closeLog_purge split: TimerCallback.splits)

lemma runUntil_None: "nextTimer limit (pending s) = None \<Longrightarrow> runUntil limit s = s\<lparr> clock := max (clock s) limit \<rparr>"
  by (subst runUntil.simps) simp

lemma runUntil_Some: "nextTimer limit (pending s) = Some t \<Longrightarrow> runUntil limit s = runUntil limit (fire t s)"
  by (subst runUntil.simps) simp

lemma runUntil_invariant:
  assumes "P s"
    and "\<And>s t. P s \<Longrightarrow> nextTimer limit (pending s) = Some t \<Longrightarrow> P (fire t s)"
    and "\<And>s. P s \<Longrightarrow> nextTimer limit (pending s) = None \<Longrightarrow> P (s\<lparr> clock := max (clock s) limit \<rparr>)"
  shows "P (runUntil limit s)"
  using assms
proof (induction limit s rule: runUntil.induct)
  case (1 limit s)
  note step = "1.prems"(2) and rest = "1.prems"(3)
  show ?case
  proof (cases "nextTimer limit (pending s)")
    case None
    show ?thesis
      unfolding runUntil_None [OF None] by (rule rest [OF "1.prems"(1) None])
  next
    case (Some t)
    have "P (runUntil limit (fire t s))"
      by (rule "1.IH" [OF Some step [OF "1.prems"(1) Some] step rest])
    then show ?thesis
      unfolding runUntil_Some [OF Some] .
  qed
qed

lemma empty_stays_empty:
  "toasts s = [] \<Longrightarrow>
     toasts (runUntil limit s) = [] \<and> closeLog (runUntil limit s) = closeLog s"
proof -
  assume e: "toasts s = []"
  have "toasts (runUntil limit s) = [] \<and> closeLog (runUntil limit s) = closeLog s"
    by (rule runUntil_invariant [where P = "\<lambda>u. toasts u = [] \<and> closeLog u = closeLog s"])
       (auto simp: e toasts_fire closeLog_fire closeLog_purge split: TimerCallback.splits)
  then show ?thesis .
qed

lemma fold_clearTimeout_fields [simp]:
  "toasts (fold clearTimeout hs s) = toasts s"
  "timersRef (fold clearTimeout hs s) = timersRef s"
  "nextHandle (fold clearTimeout hs s) = nextHandle s"
  "clock (fold clearTimeout hs s) = clock s"
  "closeLog (fold clearTimeout hs s) = closeLog s"
  by (induction hs arbitrary: s) (simp_all add: clearTimeout_def)

lemma pending_fold_clearTimeout:
  "pending (fold clearTimeout hs s) = filter (\<lambda>t. handle t \<notin> set hs) (pending s)"
  by (induction hs arbitrary: s) (auto simp: clearTimeout_def intro: filter_cong)

lemma dismissAll_fields [simp]:
  "toasts (dismissAll s) = []"
  "timersRef (dismissAll s) = []"
  "nextHandle (dismissAll s) = nextHandle s"
  "clock (dismissAll s) = clock s"
  by (simp_all add: dismissAll_def Let_def)

lemma pending_dismissAll:
  "pending (dismissAll s) = filter (\<lambda>t. handle t \<notin> snd ` set (timersRef s)) (pending s)"
  by (simp add: dismissAll_def Let_def pending_fold_clearTimeout)

lemma closeLog_dismissAll:
  "closeLog (dismissAll s) =
     closeLog s @ map (\<lambda>t. (toast_id t, the (onClose t))) (filter (\<lambda>t. onClose t \<noteq> None) (toasts s))"
proof -
  have "concat (map (\<lambda>t. case onClose t of None \<Rightarrow> [] | Some f \<Rightarrow> [(toast_id t, f)]) ts) =
        map (\<lambda>t. (toast_id t, the (onClose t))) (filter (\<lambda>t. onClose t \<noteq> None) ts)" for ts
    by (induction ts) (auto split: option.splits)
  then show ?thesis by (simp add: dismissAll_def Let_def)
qed

section \<open>Well-formed states\<close>

lemma expiryTargets_append [simp]:
  "expiryTargets (xs @ ys) = expiryTargets xs @ expiryTargets ys"
  by (induction xs) (auto split: TimerCallback.splits)

lemma set_expiryTargets:
  "set (expiryTargets ts) = {i. \<exists>t \<in> set ts. callback t = AutoDismiss i}"
  by (induction ts) (auto split: TimerCallback.splits)

lemma distinct_expiryTargets_filter:
  "distinct (expiryTargets ts) \<Longrightarrow> distinct (expiryTargets (filter P ts))"
  by (induction ts) (auto simp: set_expiryTargets split: TimerCallback.splits)

lemma distinct_expiryTargets_remove1:
  "distinct (expiryTargets ts) \<Longrightarrow> distinct (expiryTargets (remove1 t ts))"
proof (induction ts)
  case Nil
  then show ?case by simp
next
  case (Cons a ts)
  have "set (expiryTargets (remove1 t ts)) \<subseteq> set (expiryTargets ts)"
    using set_remove1_subset [of t ts] by (auto simp: set_expiryTargets)
  with Cons show ?case by (auto split: TimerCallback.splits)
qed

lemma map_of_delete_Some:
  "map_of (AList.delete i al) k = Some h \<longleftrightarrow> k \<noteq> i \<and> map_of al k = Some h"
  by (simp add: delete_conv')

lemma wellFormed_initialState: "wellFormed initialState"
  by (simp add: wellFormed_def tracked_def fresh_def owned_def initialState_def)

lemma no_expiry_after_clearTimer:
  assumes "tracked s" and "t \<in> set (pending (clearTimer i s))"
  shows "callback t \<noteq> AutoDismiss i"
  using assms by (auto simp: tracked_def pending_clearTimer split: option.splits)

lemma wellFormed_clearTimer:
  assumes w: "wellFormed s"
  shows "wellFormed (clearTimer i s)"
proof -
  from w have t: "tracked s" and f: "fresh s" and o: "owned s"
    and d: "distinct (expiryTargets (pending s))" and k: "distinct (map fst (timersRef s))"
    by (simp_all add: wellFormed_def)
  have "tracked (clearTimer i s)"
    using t by (auto simp: tracked_def pending_clearTimer map_of_delete_Some split: option.splits)
  moreover have "fresh (clearTimer i s)"
    using f by (auto simp: fresh_def pending_clearTimer map_of_delete_Some split: option.splits)
  moreover have "owned (clearTimer i s)"
    using o by (auto simp: owned_def pending_clearTimer map_of_delete_Some split: option.splits)
  moreover have "distinct (expiryTargets (pending (clearTimer i s)))"
    using d by (auto simp: pending_clearTimer distinct_expiryTargets_filter split: option.splits)
  moreover have "distinct (map fst (timersRef (clearTimer i s)))"
    using k by (simp add: distinct_delete)
  ultimately show ?thesis by (simp add: wellFormed_def)
qed

lemma setTimer_positive:
  "0 < d \<Longrightarrow>
   setTimer i d s =
     (clearTimer i s)
       \<lparr> pending := pending (clearTimer i s) @
            [\<lparr> handle = nextHandle s, due = clock s + hostDelay (nat d), callback = AutoDismiss i \<rparr>],
          nextHandle := Suc (nextHandle s),
          timersRef := AList.update i (nextHandle s) (AList.delete i (timersRef s)) \<rparr>"
  by (simp add: setTimer_def setTimeout_def Let_def)

lemma setTimer_nonpositive: "d \<le> 0 \<Longrightarrow> setTimer i d s = s"
  by (simp add: setTimer_def)

lemma wellFormed_setTimer: "wellFormed s \<Longrightarrow> wellFormed (setTimer i d s)"
proof (cases "0 < d")
  case False
  assume "wellFormed s"
  with False show ?thesis by (simp add: setTimer_nonpositive)
next
  case True
  assume w: "wellFormed s"
  let ?c = "clearTimer i s"
  have c: "tracked ?c" "fresh ?c" "owned ?c" "distinct (expiryTargets (pending ?c))"
    "distinct (map fst (AList.delete i (timersRef s)))"
    using wellFormed_clearTimer [OF w, of i] by (simp_all add: wellFormed_def)
  have n: "i \<notin> set (expiryTargets (pending ?c))"
    using no_expiry_after_clearTimer [of s _ i] w
    by (auto simp: set_expiryTargets wellFormed_def)
  have k: "map_of (timersRef ?c) i = None"
    by (simp add: delete_conv')
  show ?thesis
    unfolding wellFormed_def setTimer_positive [OF True]
  proof (intro conjI)
    show "tracked (?c\<lparr> pending := pending ?c @
            [\<lparr> handle = nextHandle s, due = clock s + hostDelay (nat d), callback = AutoDismiss i \<rparr>],
          nextHandle := Suc (nextHandle s),
          timersRef := AList.update i (nextHandle s) (AList.delete i (timersRef s)) \<rparr>)"
      using c(1) n by (auto simp: tracked_def update_conv' map_of_delete_Some set_expiryTargets)
    show "fresh (?c\<lparr> pending := pending ?c @
            [\<lparr> handle = nextHandle s, due = clock s + hostDelay (nat d), callback = AutoDismiss i \<rparr>],
          nextHandle := Suc (nextHandle s),
          timersRef := AList.update i (nextHandle s) (AList.delete i (timersRef s)) \<rparr>)"
      using c(2) by (auto simp: fresh_def update_conv' map_of_delete_Some less_Suc_eq split: if_splits)
    show "owned (?c\<lparr> pending := pending ?c @
            [\<lparr> handle = nextHandle s, due = clock s + hostDelay (nat d), callback = AutoDismiss i \<rparr>],
          nextHandle := Suc (nextHandle s),
          timersRef := AList.update i (nextHandle s) (AList.delete i (timersRef s)) \<rparr>)"
      using c(2) c(3) by (auto simp: owned_def fresh_def update_conv' map_of_delete_Some split: if_splits)
    show "distinct (expiryTargets (pending (?c\<lparr> pending := pending ?c @
            [\<lparr> handle = nextHandle s, due = clock s + hostDelay (nat d), callback = AutoDismiss i \<rparr>],
          nextHandle := Suc (nextHandle s),
          timersRef := AList.update i (nextHandle s) (AList.delete i (timersRef s)) \<rparr>)))"
      using c(4) n by simp
    show "distinct (map fst (timersRef (?c\<lparr> pending := pending ?c @
            [\<lparr> handle = nextHandle s, due = clock s + hostDelay (nat d), callback = AutoDismiss i \<rparr>],
          nextHandle := Suc (nextHandle s),
          timersRef := AList.update i (nextHandle s) (AList.delete i (timersRef s)) \<rparr>)))"
      using c(5) by (simp add: distinct_update)
  qed
qed

lemma in_remove1D: "x \<in> set (remove1 y xs) \<Longrightarrow> x \<in> set xs"
  using set_remove1_subset [of y xs] by blast

lemma wellFormed_shrink:
  assumes w: "wellFormed s"
    and p: "set (pending u) \<subseteq> set (pending s)"
    and r: "timersRef u = timersRef s"
    and n: "nextHandle u = nextHandle s"
    and d: "distinct (expiryTargets (pending u))"
  shows "wellFormed u"
proof -
  have "tracked u"
    using w p unfolding wellFormed_def tracked_def r by blast
  moreover have "fresh u"
    using w p unfolding wellFormed_def fresh_def r n by blast
  moreover have "owned u"
    using w p unfolding wellFormed_def owned_def r by blast
  ultimately show ?thesis using d w by (simp add: wellFormed_def r)
qed

lemma wellFormed_pending_subset:
  assumes "wellFormed s"
  shows "wellFormed (s\<lparr> pending := filter P (pending s) \<rparr>)"
    and "wellFormed (s\<lparr> pending := remove1 t (pending s) \<rparr>)"
    and "wellFormed (s\<lparr> clock := c \<rparr>)"
    and "wellFormed (s\<lparr> toasts := ts \<rparr>)"
    and "wellFormed (s\<lparr> closeLog := l \<rparr>)"
proof -
  from assms have d: "distinct (expiryTargets (pending s))"
    by (simp add: wellFormed_def)
  show "wellFormed (s\<lparr> pending := filter P (pending s) \<rparr>)"
    by (rule wellFormed_shrink [OF assms]) (simp_all add: d distinct_expiryTargets_filter)
  show "wellFormed (s\<lparr> pending := remove1 t (pending s) \<rparr>)"
    by (rule wellFormed_shrink [OF assms])
       (simp_all add: d distinct_expiryTargets_remove1 set_remove1_subset)
  show "wellFormed (s\<lparr> clock := c \<rparr>)"
    by (rule wellFormed_shrink [OF assms]) (simp_all add: d)
  show "wellFormed (s\<lparr> toasts := ts \<rparr>)"
    by (rule wellFormed_shrink [OF assms]) (simp_all add: d)
  show "wellFormed (s\<lparr> closeLog := l \<rparr>)"
    by (rule wellFormed_shrink [OF assms]) (simp_all add: d)
qed

lemma wellFormed_schedule_purge:
  assumes w: "wellFormed s"
  shows "wellFormed (snd (setTimeout (Purge i) delay s))"
proof -
  have "tracked (snd (setTimeout (Purge i) delay s))"
    using w by (auto simp: wellFormed_def tracked_def setTimeout_def)
  moreover have "fresh (snd (setTimeout (Purge i) delay s))"
    using w by (auto simp: wellFormed_def fresh_def setTimeout_def less_Suc_eq)
  moreover have "owned (snd (setTimeout (Purge i) delay s))"
  proof -
    from w have f: "fresh s" and o: "owned s" by (simp_all add: wellFormed_def)
    from f have "map_of (timersRef s) k \<noteq> Some (nextHandle s)" for k
      by (auto simp: fresh_def)
    with o show ?thesis by (auto simp: owned_def setTimeout_def)
  qed
  moreover have "distinct (expiryTargets (pending (snd (setTimeout (Purge i) delay s))))"
    using w by (simp add: wellFormed_def setTimeout_def)
  moreover have "distinct (map fst (timersRef (snd (setTimeout (Purge i) delay s))))"
    using w by (simp add: wellFormed_def setTimeout_def)
  ultimately show ?thesis by (simp add: wellFormed_def)
qed

lemma wellFormed_dismiss: "wellFormed s \<Longrightarrow> wellFormed (dismiss i s)"
  unfolding dismiss_def Let_def
  by (intro wellFormed_schedule_purge wellFormed_pending_subset wellFormed_clearTimer)

lemma wellFormed_purge:
  assumes w: "wellFormed s"
  shows "wellFormed (purge i s)"
proof -
  from w have "distinct (expiryTargets (pending s))" by (simp add: wellFormed_def)
  then show ?thesis by (intro wellFormed_shrink [OF w]) (simp_all add: pending_purge)
qed

lemma wellFormed_fire: "wellFormed s \<Longrightarrow> wellFormed (fire t s)"
  unfolding fire_def Let_def
  by (cases "callback t")
     (simp_all add: wellFormed_dismiss wellFormed_purge wellFormed_pending_subset)

lemma wellFormed_runUntil: "wellFormed s \<Longrightarrow> wellFormed (runUntil limit s)"
proof (rule runUntil_invariant [where P = wellFormed])
  fix u t
  assume "wellFormed u"
  then show "wellFormed (fire t u)" by (rule wellFormed_fire)
next
  fix u
  assume "wellFormed u"
  then show "wellFormed (u\<lparr> clock := max (clock u) limit \<rparr>)"
    by (rule wellFormed_pending_subset)
qed

lemma wellFormed_dismissAll: "wellFormed s \<Longrightarrow> wellFormed (dismissAll s)"
proof -
  assume w: "wellFormed s"
  have "callback t \<noteq> AutoDismiss i" if "t \<in> set (pending (dismissAll s))" for t i
  proof
    assume a: "callback t = AutoDismiss i"
    from that have m: "t \<in> set (pending s)" and h: "handle t \<notin> snd ` set (timersRef s)"
      by (simp_all add: pending_dismissAll)
    from w m a have "map_of (timersRef s) i = Some (handle t)"
      by (simp add: wellFormed_def tracked_def)
    then have "(i, handle t) \<in> set (timersRef s)" by (rule map_of_SomeD)
    with h show False by force
  qed
  then have t: "tracked (dismissAll s)" by (auto simp: tracked_def)
  have f: "fresh (dismissAll s)"
    using w by (auto simp: wellFormed_def fresh_def pending_dismissAll)
  have o: "owned (dismissAll s)" by (simp add: owned_def)
  have d: "distinct (expiryTargets (pending (dismissAll s)))"
    using w by (simp add: wellFormed_def pending_dismissAll distinct_expiryTargets_filter)
  from t f o d show ?thesis by (simp add: wellFormed_def)
qed

lemma wellFormed_fold_clearTimer:
  "wellFormed s \<Longrightarrow> wellFormed (fold (\<lambda>t. clearTimer (toast_id t)) ts s)"
  by (induction ts arbitrary: s) (simp_all add: wellFormed_clearTimer)

lemma wellFormed_insertToast: "wellFormed s \<Longrightarrow> wellFormed (insertToast cfg toast s)"
  by (simp add: insertToast_def Let_def wellFormed_pending_subset wellFormed_fold_clearTimer)

lemma wellFormed_createToast:
  "wellFormed s \<Longrightarrow> wellFormed (snd (createToast cfg rnd msg options s))"
  by (simp add: createToast_def Let_def wellFormed_insertToast wellFormed_setTimer)

lemma wellFormed_createToastDeferred:
  "wellFormed s \<Longrightarrow> wellFormed (snd (createToastDeferred cfg rnd msg options s))"
  by (simp add: createToastDeferred_def Let_def wellFormed_insertToast wellFormed_setTimer)

lemma wellFormed_update: "wellFormed s \<Longrightarrow> wellFormed (update i msg options s)"
  by (simp add: update_def Let_def wellFormed_pending_subset wellFormed_setTimer
        split: option.splits)

lemma wellFormed_exec: "wellFormed s \<Longrightarrow> wellFormed (exec cfg c s)"
  by (cases c)
     (simp_all add: wellFormed_createToast wellFormed_createToastDeferred wellFormed_update
        wellFormed_dismiss
        wellFormed_dismissAll wellFormed_runUntil advanceTimersByTime_def)

lemma wellFormed_run: "wellFormed s \<Longrightarrow> wellFormed (run cfg cs s)"
  unfolding run_def by (induction cs arbitrary: s) (simp_all add: wellFormed_exec)

section \<open>Timers of one kind\<close>

lemma wellFormed_reachable: "wellFormed (run cfg cs initialState)"
  by (rule wellFormed_run [OF wellFormed_initialState])

lemma pending_dismissAll_wellFormed:
  assumes w: "wellFormed s"
  shows "pending (dismissAll s) = filter isPurge (pending s)"
proof -
  have "handle t \<notin> snd ` set (timersRef s) \<longleftrightarrow> isPurge t" if m: "t \<in> set (pending s)" for t
  proof (cases "callback t")
    case (AutoDismiss i)
    with w m have "map_of (timersRef s) i = Some (handle t)"
      by (simp add: wellFormed_def tracked_def)
    then have "(i, handle t) \<in> set (timersRef s)" by (rule map_of_SomeD)
    then have "handle t \<in> snd ` set (timersRef s)" by force
    with AutoDismiss show ?thesis by simp
  next
    case (Purge i)
    have "handle t \<notin> snd ` set (timersRef s)"
    proof
      assume "handle t \<in> snd ` set (timersRef s)"
      then obtain k where "(k, handle t) \<in> set (timersRef s)" by force
      with w have "map_of (timersRef s) k = Some (handle t)"
        by (simp add: wellFormed_def)
      with w m have "callback t = AutoDismiss k"
        by (simp add: wellFormed_def owned_def)
      with Purge show False by simp
    qed
    with Purge show ?thesis by simp
  qed
  then show ?thesis by (simp add: pending_dismissAll cong: filter_cong)
qed

lemma at_most_one_expiry:
  "distinct (expiryTargets ts) \<Longrightarrow> length (filter (\<lambda>t. callback t = AutoDismiss i) ts) \<le> 1"
proof (induction ts)
  case Nil
  then show ?case by simp
next
  case (Cons a ts)
  show ?case
  proof (cases "callback a = AutoDismiss i")
    case True
    with Cons.prems have "i \<notin> set (expiryTargets ts)" by simp
    then have "filter (\<lambda>t. callback t = AutoDismiss i) ts = []"
      by (auto simp: set_expiryTargets filter_empty_conv)
    with True show ?thesis by simp
  next
    case False
    with Cons show ?thesis by (auto split: TimerCallback.splits)
  qed
qed

lemma timersOf_setTimer:
  assumes w: "wellFormed s" and d: "0 < d"
  shows "timersOf (AutoDismiss i) (setTimer i d s) =
           [\<lparr> handle = nextHandle s, due = clock s + hostDelay (nat d), callback = AutoDismiss i \<rparr>]"
proof -
  from w have "tracked s" by (simp add: wellFormed_def)
  then have "filter (\<lambda>t. callback t = AutoDismiss i) (pending (clearTimer i s)) = []"
    using no_expiry_after_clearTimer [of s _ i] by (auto simp: filter_empty_conv)
  then show ?thesis by (simp add: timersOf_def setTimer_positive [OF d])
qed

lemma purge_timers_clearTimer:
  assumes w: "wellFormed s"
  shows "filter (\<lambda>t. callback t = Purge i) (pending (clearTimer j s)) =
         filter (\<lambda>t. callback t = Purge i) (pending s)"
proof (cases "map_of (timersRef s) j")
  case None
  then show ?thesis by (simp add: pending_clearTimer)
next
  case (Some h)
  from w have o: "owned s" by (simp add: wellFormed_def)
  have "handle t \<noteq> h" if "t \<in> set (pending s)" "callback t = Purge i" for t
    using o that Some by (auto simp: owned_def)
  then have "filter (\<lambda>t. callback t = Purge i) (filter (\<lambda>t. handle t \<noteq> h) (pending s)) =
             filter (\<lambda>t. callback t = Purge i) (pending s)"
    by (auto intro!: filter_cong)
  with Some show ?thesis by (simp add: pending_clearTimer)
qed

lemma timersOf_dismiss:
  assumes w: "wellFormed s"
  shows "timersOf (Purge i) (dismiss i s) =
           timersOf (Purge i) s @
             [\<lparr> handle = nextHandle s, due = clock s + 300, callback = Purge i \<rparr>]"
  by (simp add: timersOf_def pending_dismiss purge_timers_clearTimer [OF w])

section \<open>How often a toast is closed\<close>

lemma toast_id_markRemoving [simp]: "toast_id (markRemoving i t) = toast_id t"
  by (simp add: markRemoving_def)

lemma filter_id_markRemoving:
  "filter (\<lambda>t. toast_id t = x) (map (markRemoving i) ts) =
   map (markRemoving i) (filter (\<lambda>t. toast_id t = x) ts)"
  by (induction ts) simp_all

lemma balance_dismiss:
  "alive x (dismiss i s) = alive x s" "closeCalls x (dismiss i s) = closeCalls x s"
  by (simp_all add: alive_def closeCalls_def filter_id_markRemoving)

lemma find_id_Some: "find (\<lambda>t. toast_id t = i) ts = Some t \<Longrightarrow> toast_id t = i \<and> t \<in> set ts"
  by (induction ts) (auto split: if_splits)

lemma balance_purge:
  "closeCalls x (purge i s) + alive x (purge i s) \<le> closeCalls x s + alive x s"
proof (cases "i = x")
  case False
  have "filter (\<lambda>t. toast_id t = x) (filter (\<lambda>t. toast_id t \<noteq> i) (toasts s)) =
        filter (\<lambda>t. toast_id t = x) (toasts s)"
    using False by (auto intro!: filter_cong)
  moreover have "closeCalls x (purge i s) = closeCalls x s"
    using False
    by (auto simp: closeCalls_def closeLog_purge split: option.splits dest: find_id_Some)
  ultimately show ?thesis by (simp add: alive_def)
next
  case True
  have a: "alive x (purge i s) = 0"
    using True by (simp add: alive_def)
  show ?thesis
  proof (cases "find (\<lambda>t. toast_id t = i) (toasts s)")
    case None
    then show ?thesis using a by (simp add: closeCalls_def closeLog_purge)
  next
    case (Some t)
    then have "t \<in> set (filter (\<lambda>t. toast_id t = x) (toasts s))"
      using True by (auto dest: find_id_Some)
    then have "0 < alive x s"
      unfolding alive_def by (rule length_pos_if_in_set)
    moreover have "closeCalls x (purge i s) \<le> closeCalls x s + 1"
      using Some by (simp add: closeCalls_def closeLog_purge split: option.splits)
    ultimately show ?thesis using a by simp
  qed
qed

lemma balance_dismissAll:
  "closeCalls x (dismissAll s) + alive x (dismissAll s) \<le> closeCalls x s + alive x s"
proof -
  have "length (filter (\<lambda>c. fst c = x)
          (map (\<lambda>t. (toast_id t, the (onClose t))) (filter (\<lambda>t. onClose t \<noteq> None) ts)))
        \<le> length (filter (\<lambda>t. toast_id t = x) ts)" for ts
    by (induction ts) auto
  then show ?thesis
    by (simp add: closeCalls_def alive_def closeLog_dismissAll)
qed

lemma balance_fire:
  "closeCalls x (fire t s) + alive x (fire t s) \<le> closeCalls x s + alive x s"
proof (cases "callback t")
  case (AutoDismiss i)
  then show ?thesis
    by (simp add: alive_def closeCalls_def toasts_fire closeLog_fire filter_id_markRemoving)
next
  case (Purge i)
  have "alive x (fire t s) = alive x (purge i s)" "closeCalls x (fire t s) = closeCalls x (purge i s)"
    using Purge by (simp_all add: alive_def closeCalls_def toasts_fire closeLog_fire closeLog_purge)
  then show ?thesis using balance_purge [of x i s] by simp
qed

lemma balance_runUntil:
  "closeCalls x (runUntil limit s) + alive x (runUntil limit s) \<le> closeCalls x s + alive x s"
proof (rule runUntil_invariant
    [where P = "\<lambda>u. closeCalls x u + alive x u \<le> closeCalls x s + alive x s"])
  show "closeCalls x s + alive x s \<le> closeCalls x s + alive x s" by simp
next
  fix u t
  assume "closeCalls x u + alive x u \<le> closeCalls x s + alive x s"
  with balance_fire [of x t u]
  show "closeCalls x (fire t u) + alive x (fire t u) \<le> closeCalls x s + alive x s"
    by simp
next
  fix u
  assume "closeCalls x u + alive x u \<le> closeCalls x s + alive x s"
  then show "closeCalls x (u\<lparr> clock := max (clock u) limit \<rparr>) +
             alive x (u\<lparr> clock := max (clock u) limit \<rparr>) \<le> closeCalls x s + alive x s"
    by (simp add: closeCalls_def alive_def)
qed

lemma balance_exec:
  "closing c \<Longrightarrow>
   closeCalls x (exec cfg c s) + alive x (exec cfg c s) \<le> closeCalls x s + alive x s"
  by (cases c)
     (simp_all add: balance_dismiss balance_dismissAll balance_runUntil advanceTimersByTime_def)

lemma balance_run:
  "list_all closing cs \<Longrightarrow>
   closeCalls x (run cfg cs s) + alive x (run cfg cs s) \<le> closeCalls x s + alive x s"
proof (induction cs arbitrary: s)
  case Nil
  then show ?case by (simp add: run_def)
next
  case (Cons c cs)
  have "closeCalls x (run cfg cs (exec cfg c s)) + alive x (run cfg cs (exec cfg c s))
        \<le> closeCalls x (exec cfg c s) + alive x (exec cfg c s)"
    using Cons.IH Cons.prems by simp
  also have "\<dots> \<le> closeCalls x s + alive x s"
    using Cons.prems by (simp add: balance_exec)
  finally show ?case by (simp add: run_def)
qed

section \<open>The ids of the toasts in the list\<close>

lemma slice_take: "slice 0 b xs = take (sliceIndex b (length xs)) xs"
  by (simp add: slice_def sliceIndex_def)

lemma toasts_fold_clearTimer [simp]:
  "toasts (fold (\<lambda>t. clearTimer (toast_id t)) ts s) = toasts s"
  by (induction ts arbitrary: s) simp_all

lemma toasts_insertToast:
  "toasts (insertToast cfg toast s) =
     (let same = toast # filter (\<lambda>t. position t = position toast) (toasts s)
      in (if int (length same) > maxToasts cfg
          then take (sliceIndex (maxToasts cfg) (length same)) same else same) @
         filter (\<lambda>t. position t \<noteq> position toast) (toasts s))"
  by (simp add: insertToast_def Let_def slice_take)

lemma toasts_setTimer [simp]: "toasts (setTimer i d s) = toasts s"
  by (simp add: setTimer_def setTimeout_def Let_def)

lemma toasts_createToast:
  "toasts (snd (createToast cfg rnd msg options s)) =
   toasts (insertToast cfg (newToast cfg rnd msg options (clock s)) s)"
  by (simp add: createToast_def Let_def)

lemma toasts_createToastDeferred:
  "toasts (snd (createToastDeferred cfg rnd msg options s)) =
   toasts (insertToast cfg (newToast cfg rnd msg options (clock s)) s)"
  by (simp add: createToastDeferred_def Let_def toasts_insertToast)

lemma distinct_partition:
  assumes "distinct (map f xs)"
  shows "distinct (map f (filter P xs @ filter (\<lambda>x. \<not> P x) xs))"
proof -
  have i: "inj_on f (set xs)" and d: "distinct xs"
    using assms by (simp_all add: distinct_map)
  have "f a \<noteq> f b" if "a \<in> set xs" "P a" "b \<in> set xs" "\<not> P b" for a b
    using i that by (auto dest: inj_onD)
  then show ?thesis
    using assms by (auto simp: distinct_map_filter)
qed

lemma distinct_ids_insertToast:
  assumes d: "distinct (ids s)" and n: "toast_id toast \<notin> set (ids s)"
  shows "distinct (ids (insertToast cfg toast s))"
proof -
  let ?P = "\<lambda>t. position t = position toast"
  let ?same = "toast # filter ?P (toasts s)"
  let ?others = "filter (\<lambda>t. \<not> ?P t) (toasts s)"
  have full: "distinct (map toast_id (?same @ ?others))"
    using distinct_partition [of toast_id "toasts s" ?P] d n by (auto simp: ids_def)
  have "distinct (map toast_id (take k ?same @ ?others))" for k
  proof -
    from full have "distinct (map toast_id ?same)"
      by (simp only: map_append distinct_append)
    then have "distinct (take k (map toast_id ?same))"
      by (rule distinct_take)
    then have "distinct (map toast_id (take k ?same))"
      by (simp only: take_map)
    moreover have "set (map toast_id (take k ?same)) \<subseteq> set (map toast_id ?same)"
      by (metis set_take_subset take_map)
    ultimately show ?thesis using full by (auto simp only: map_append distinct_append)
  qed
  with full show ?thesis
    by (simp add: ids_def toasts_insertToast Let_def)
qed

lemma ids_dismiss [simp]: "ids (dismiss i s) = ids s"
  by (simp add: ids_def)

lemma distinct_ids_fire: "distinct (ids s) \<Longrightarrow> distinct (ids (fire t s))"
  by (cases "callback t") (simp_all add: ids_def toasts_fire distinct_map_filter comp_def)

lemma distinct_ids_runUntil: "distinct (ids s) \<Longrightarrow> distinct (ids (runUntil limit s))"
proof (rule runUntil_invariant [where P = "\<lambda>u. distinct (ids u)"])
  fix u t
  assume "distinct (ids u)"
  then show "distinct (ids (fire t u))" by (rule distinct_ids_fire)
next
  fix u
  assume "distinct (ids u)"
  then show "distinct (ids (u\<lparr> clock := max (clock u) limit \<rparr>))"
    by (simp add: ids_def)
qed

lemma digit_not_dash: "n < 10 \<Longrightarrow> char_of (48 + n) \<noteq> CHR ''-''" for n :: nat
proof
  assume n: "n < 10" and "char_of (48 + n) = CHR ''-''"
  then have "(of_char (char_of (48 + n)) :: nat) = of_char CHR ''-''" by simp
  then show False using n by (simp add: of_char_of)
qed

lemma digit_inject:
  "a < 10 \<Longrightarrow> b < 10 \<Longrightarrow> char_of (48 + a) = char_of (48 + b) \<Longrightarrow> a = b" for a b :: nat
  by (simp add: char_of_quasi_inj)

lemma decimal_unfold:
  "decimal n = (if n < 10 then [char_of (48 + n)]
                else decimal (n div 10) @ [char_of (48 + n mod 10)])"
  by (rule decimal.simps)

lemma decimal_small: "n < 10 \<Longrightarrow> decimal n = [char_of (48 + n)]"
  by (subst decimal_unfold) (simp only: if_True)

lemma decimal_large:
  "\<not> n < 10 \<Longrightarrow> decimal n = decimal (n div 10) @ [char_of (48 + n mod 10)]"
  by (subst decimal_unfold) (simp only: if_False)

lemma decimal_no_dash: "CHR ''-'' \<notin> set (decimal n)"
proof (induction n rule: decimal.induct)
  case (1 n)
  show ?case
  proof (cases "n < 10")
    case True
    have "set (decimal n) = {char_of (48 + n)}"
      by (simp only: decimal_small [OF True] list.set)
    then show ?thesis using digit_not_dash [OF True] by (metis singletonD)
  next
    case False
    have "set (decimal n) = set (decimal (n div 10)) \<union> {char_of (48 + n mod 10)}"
      by (simp only: decimal_large [OF False] set_append list.set)
    moreover have "n mod 10 < 10" by simp
    ultimately show ?thesis
      using 1 [OF False] digit_not_dash [of "n mod 10"] by (metis Un_iff singletonD)
  qed
qed

lemma decimal_not_Nil: "decimal n \<noteq> []"
proof (cases "n < 10")
  case True
  show ?thesis by (simp only: decimal_small [OF True]) simp
next
  case False
  show ?thesis by (simp only: decimal_large [OF False]) simp
qed

lemma decimal_inject: "decimal n = decimal m \<Longrightarrow> n = m"
proof (induction n arbitrary: m rule: decimal.induct)
  case (1 n)
  note eq = \<open>decimal n = decimal m\<close>
  show ?case
  proof (cases "n < 10")
    case n: True
    show ?thesis
    proof (cases "m < 10")
      case True
      from eq have "char_of (48 + n) = char_of (48 + m)"
        by (simp only: decimal_small [OF n] decimal_small [OF True] list.inject)
      then show ?thesis by (rule digit_inject [OF n True])
    next
      case False
      from eq have "[char_of (48 + n)] = decimal (m div 10) @ [char_of (48 + m mod 10)]"
        by (simp only: decimal_small [OF n] decimal_large [OF False])
      then have "decimal (m div 10) = []"
        by (simp only: Cons_eq_append_conv) blast
      with decimal_not_Nil show ?thesis by blast
    qed
  next
    case n: False
    show ?thesis
    proof (cases "m < 10")
      case True
      from eq have "decimal (n div 10) @ [char_of (48 + n mod 10)] = [char_of (48 + m)]"
        by (simp only: decimal_small [OF True] decimal_large [OF n])
      then have "decimal (n div 10) = []"
        by (simp only: append_eq_Cons_conv) blast
      with decimal_not_Nil show ?thesis by blast
    next
      case False
      from eq have "decimal (n div 10) @ [char_of (48 + n mod 10)] =
                    decimal (m div 10) @ [char_of (48 + m mod 10)]"
        by (simp only: decimal_large [OF n] decimal_large [OF False])
      then have e: "decimal (n div 10) = decimal (m div 10)"
        and c: "char_of (48 + n mod 10) = char_of (48 + m mod 10)"
        by (simp_all only: append1_eq_conv)
      from 1(1) [OF n e] have "n div 10 = m div 10" .
      moreover from c have "n mod 10 = m mod 10"
        by (intro digit_inject) simp_all
      ultimately show ?thesis by (metis div_mult_mod_eq)
    qed
  qed
qed

lemma split_at_first:
  "c \<notin> set xs \<Longrightarrow> c \<notin> set xs' \<Longrightarrow> xs @ c # ys = xs' @ c # ys' \<Longrightarrow> xs = xs' \<and> ys = ys'"
proof (induction xs arbitrary: xs')
  case Nil
  then show ?case by (cases xs') auto
next
  case (Cons a xs)
  then show ?case by (cases xs') auto
qed

lemma generateToastId_inject:
  "generateToastId n r = generateToastId m q \<longleftrightarrow> n = m \<and> r = q"
proof
  assume "generateToastId n r = generateToastId m q"
  then have "decimal n @ CHR ''-'' # r = decimal m @ CHR ''-'' # q"
    by (simp add: generateToastId_def del: decimal.simps)
  from split_at_first [OF decimal_no_dash decimal_no_dash this]
  show "n = m \<and> r = q" by (blast dest: decimal_inject)
qed simp

lemma reserved_generateToastId: "reserved (generateToastId n r)"
  by (simp add: reserved_def generateToastId_def del: decimal.simps)

lemma toast_id_newToast:
  "toast_id (newToast cfg rnd msg options now) =
     (case supplied options of None \<Rightarrow> generateToastId now rnd | Some i \<Rightarrow> i)"
  by (simp add: newToast_def supplied_def split: option.splits)


lemma set_ids_insertToast:
  "set (ids (insertToast cfg toast s)) \<subseteq> insert (toast_id toast) (set (ids s))"
  by (auto simp: ids_def toasts_insertToast Let_def dest!: in_set_takeD)

lemma set_ids_fire: "set (ids (fire t s)) \<subseteq> set (ids s)"
  by (cases "callback t") (auto simp: ids_def toasts_fire markRemoving_def)

lemma set_ids_runUntil: "set (ids (runUntil limit s)) \<subseteq> set (ids s)"
proof (rule runUntil_invariant [where P = "\<lambda>u. set (ids u) \<subseteq> set (ids s)"])
  show "set (ids s) \<subseteq> set (ids s)" by simp
next
  fix u t
  assume "set (ids u) \<subseteq> set (ids s)"
  then show "set (ids (fire t u)) \<subseteq> set (ids s)"
    using set_ids_fire [of t u] by blast
next
  fix u
  assume "set (ids u) \<subseteq> set (ids s)"
  then show "set (ids (u\<lparr> clock := max (clock u) limit \<rparr>)) \<subseteq> set (ids s)"
    by (simp add: ids_def)
qed

lemma ids_update_same:
  "opt_id options = None \<or> opt_id options = Some i \<Longrightarrow> ids (update i msg options s) = ids s"
  by (auto simp: ids_def update_def Let_def mergeOptions_def split: option.splits)

lemma new_id_fresh:
  assumes h: "case supplied options of None \<Rightarrow> True
              | Some i \<Rightarrow> i \<notin> set (ids s) \<and> \<not> reserved i"
    and st: "\<forall>i \<in> set (ids s). reserved i \<longrightarrow> i \<in> (\<lambda>(n, r). generateToastId n r) ` D"
    and dr: "set (case supplied options of None \<Rightarrow> [(clock s, rnd)] | Some i \<Rightarrow> []) \<inter> D = {}"
  shows "toast_id (newToast cfg rnd msg options (clock s)) \<notin> set (ids s)"
proof (cases "supplied options")
  case None
  have "generateToastId (clock s) rnd \<notin> set (ids s)"
  proof
    assume "generateToastId (clock s) rnd \<in> set (ids s)"
    with st reserved_generateToastId
    have "generateToastId (clock s) rnd \<in> (\<lambda>(n, r). generateToastId n r) ` D" by blast
    then obtain n r where "(n, r) \<in> D" "generateToastId (clock s) rnd = generateToastId n r"
      by auto
    then have "(clock s, rnd) \<in> D" by (simp add: generateToastId_inject)
    with dr None show False by simp
  qed
  with None show ?thesis by (simp add: toast_id_newToast)
next
  case (Some i)
  with h show ?thesis by (simp add: toast_id_newToast)
qed

lemma new_id_stamped:
  assumes h: "case supplied options of None \<Rightarrow> True
              | Some i \<Rightarrow> i \<notin> set (ids s) \<and> \<not> reserved i"
    and st: "\<forall>i \<in> set (ids s). reserved i \<longrightarrow> i \<in> (\<lambda>(n, r). generateToastId n r) ` D"
    and sub: "set (ids s') \<subseteq> insert (toast_id (newToast cfg rnd msg options (clock s))) (set (ids s))"
  shows "\<forall>i \<in> set (ids s'). reserved i \<longrightarrow>
           i \<in> (\<lambda>(n, r). generateToastId n r) `
                 (D \<union> set (case supplied options of None \<Rightarrow> [(clock s, rnd)] | Some i \<Rightarrow> []))"
proof (intro ballI impI)
  fix i
  assume i: "i \<in> set (ids s')" and r: "reserved i"
  from i sub have "i = toast_id (newToast cfg rnd msg options (clock s)) \<or> i \<in> set (ids s)"
    by blast
  then show "i \<in> (\<lambda>(n, r). generateToastId n r) `
                 (D \<union> set (case supplied options of None \<Rightarrow> [(clock s, rnd)] | Some i \<Rightarrow> []))"
  proof
    assume n: "i = toast_id (newToast cfg rnd msg options (clock s))"
    show ?thesis
    proof (cases "supplied options")
      case None
      with n show ?thesis by (simp add: toast_id_newToast)
    next
      case (Some j)
      with n h r show ?thesis by (simp add: toast_id_newToast)
    qed
  next
    assume "i \<in> set (ids s)"
    with st r show ?thesis by blast
  qed
qed

lemma distinct_ids_step:
  assumes h: "admissible c s" and d: "distinct (ids s)"
    and st: "\<forall>i \<in> set (ids s). reserved i \<longrightarrow> i \<in> (\<lambda>(n, r). generateToastId n r) ` D"
    and dr: "set (draw c s) \<inter> D = {}"
  shows "distinct (ids (exec cfg c s)) \<and>
         (\<forall>i \<in> set (ids (exec cfg c s)). reserved i \<longrightarrow>
            i \<in> (\<lambda>(n, r). generateToastId n r) ` (D \<union> set (draw c s)))"
proof (cases c)
  case (Create rnd msg options)
  let ?toast = "newToast cfg rnd msg options (clock s)"
  have e: "ids (exec cfg c s) = ids (insertToast cfg ?toast s)"
    by (simp add: Create ids_def toasts_createToast)
  have f: "toast_id ?toast \<notin> set (ids s)"
    using h dr by (intro new_id_fresh [OF _ st]) (simp_all add: Create)
  have "distinct (ids (exec cfg c s))"
    unfolding e by (rule distinct_ids_insertToast [OF d f])
  moreover have "\<forall>i \<in> set (ids (exec cfg c s)). reserved i \<longrightarrow>
            i \<in> (\<lambda>(n, r). generateToastId n r) ` (D \<union> set (draw c s))"
  proof -
    have hh: "case supplied options of None \<Rightarrow> True
              | Some i \<Rightarrow> i \<notin> set (ids s) \<and> \<not> reserved i"
      using h by (simp add: Create)
    have sub: "set (ids (exec cfg c s)) \<subseteq> insert (toast_id ?toast) (set (ids s))"
      unfolding e by (rule set_ids_insertToast)
    from new_id_stamped [OF hh st sub] show ?thesis by (simp add: Create)
  qed
  ultimately show ?thesis by simp
next
  case (CreateDeferred rnd msg options)
  let ?toast = "newToast cfg rnd msg options (clock s)"
  have e: "ids (exec cfg c s) = ids (insertToast cfg ?toast s)"
    by (simp add: CreateDeferred ids_def toasts_createToastDeferred)
  have f: "toast_id ?toast \<notin> set (ids s)"
    using h dr by (intro new_id_fresh [OF _ st]) (simp_all add: CreateDeferred)
  have "distinct (ids (exec cfg c s))"
    unfolding e by (rule distinct_ids_insertToast [OF d f])
  moreover have "\<forall>i \<in> set (ids (exec cfg c s)). reserved i \<longrightarrow>
            i \<in> (\<lambda>(n, r). generateToastId n r) ` (D \<union> set (draw c s))"
  proof -
    have hh: "case supplied options of None \<Rightarrow> True
              | Some i \<Rightarrow> i \<notin> set (ids s) \<and> \<not> reserved i"
      using h by (simp add: CreateDeferred)
    have sub: "set (ids (exec cfg c s)) \<subseteq> insert (toast_id ?toast) (set (ids s))"
      unfolding e by (rule set_ids_insertToast)
    from new_id_stamped [OF hh st sub] show ?thesis by (simp add: CreateDeferred)
  qed
  ultimately show ?thesis by simp
next
  case (Update i msg options)
  with h have "ids (exec cfg c s) = ids s" by (simp add: ids_update_same)
  with d st Update show ?thesis by simp
next
  case (Dismiss i)
  with d st show ?thesis by simp
next
  case DismissAll
  then show ?thesis by (simp add: ids_def)
next
  case (Advance e)
  have "distinct (ids (exec cfg c s))"
    using d by (simp add: Advance advanceTimersByTime_def distinct_ids_runUntil)
  moreover have "set (ids (exec cfg c s)) \<subseteq> set (ids s)"
    by (simp add: Advance advanceTimersByTime_def set_ids_runUntil)
  ultimately show ?thesis using st Advance by auto
qed

lemma distinct_ids_steps:
  assumes "suppliedFresh cfg cs s" and "distinct (draws cfg cs s)"
    and "set (draws cfg cs s) \<inter> D = {}" and "distinct (ids s)"
    and "\<forall>i \<in> set (ids s). reserved i \<longrightarrow> i \<in> (\<lambda>(n, r). generateToastId n r) ` D"
  shows "distinct (ids (run cfg cs s))"
  using assms
proof (induction cs arbitrary: s D)
  case Nil
  then show ?case by (simp add: run_def)
next
  case (Cons c cs)
  let ?s = "exec cfg c s"
  from Cons.prems(1) have h: "admissible c s" and sf: "suppliedFresh cfg cs ?s" by simp_all
  from Cons.prems(2) have dd: "distinct (draws cfg cs ?s)"
    and dj: "set (draw c s) \<inter> set (draws cfg cs ?s) = {}" by simp_all
  from Cons.prems(3) have d1: "set (draw c s) \<inter> D = {}"
    and d2: "set (draws cfg cs ?s) \<inter> D = {}" by auto
  from distinct_ids_step [OF h Cons.prems(4) Cons.prems(5) d1, of cfg]
  have a: "distinct (ids ?s)"
    and b: "\<forall>i \<in> set (ids ?s). reserved i \<longrightarrow>
              i \<in> (\<lambda>(n, r). generateToastId n r) ` (D \<union> set (draw c s))"
    by simp_all
  have "set (draws cfg cs ?s) \<inter> (D \<union> set (draw c s)) = {}"
    using dj d2 by blast
  from Cons.IH [OF sf dd this a b] show ?case by (simp add: run_def)
qed

section \<open>The toasts of one position\<close>

lemma created_append: "created cfg now (cs @ ds) = created cfg now cs @ created cfg now ds"
  by (induction cfg now cs rule: created.induct) simp_all

lemma run_snoc: "run cfg (cs @ [c]) s = exec cfg c (run cfg cs s)"
  by (simp add: run_def)

lemma setTimer_fields [simp]:
  "clock (setTimer i d s) = clock s" "closeLog (setTimer i d s) = closeLog s"
  by (simp_all add: setTimer_def setTimeout_def Let_def)

lemma fold_clearTimer_fields [simp]:
  "clock (fold (\<lambda>t. clearTimer (toast_id t)) ts s) = clock s"
  "closeLog (fold (\<lambda>t. clearTimer (toast_id t)) ts s) = closeLog s"
  by (induction ts arbitrary: s) simp_all

lemma insertToast_fields [simp]:
  "clock (insertToast cfg toast s) = clock s"
  "closeLog (insertToast cfg toast s) = closeLog s"
  by (simp_all add: insertToast_def Let_def)

lemma createToast_fields [simp]:
  "clock (snd (createToast cfg rnd msg options s)) = clock s"
  "closeLog (snd (createToast cfg rnd msg options s)) = closeLog s"
  by (simp_all add: createToast_def Let_def)

lemma createToastDeferred_fields [simp]:
  "clock (snd (createToastDeferred cfg rnd msg options s)) = clock s"
  "closeLog (snd (createToastDeferred cfg rnd msg options s)) = closeLog s"
  by (simp_all add: createToastDeferred_def Let_def)

lemma creates_keep_clock_and_log:
  "list_all isCreate cs \<Longrightarrow>
   clock (run cfg cs s) = clock s \<and> closeLog (run cfg cs s) = closeLog s"
proof (induction cs rule: rev_induct)
  case Nil
  then show ?case by (simp add: run_def)
next
  case (snoc c cs)
  then show ?case by (cases c) (simp_all add: run_snoc)
qed

lemma take_Cons_take: "take k (a # take k xs) = take k (a # xs)"
  by (cases k) simp_all

lemma toasts_insertToast_nonneg:
  assumes "0 \<le> maxToasts cfg"
  shows "toasts (insertToast cfg toast s) =
           take (nat (maxToasts cfg)) (toast # slot (position toast) s) @
           filter (\<lambda>t. position t \<noteq> position toast) (toasts s)"
  using assms by (auto simp: toasts_insertToast Let_def sliceIndex_def slot_def)

lemma slot_insertToast:
  assumes m: "0 \<le> maxToasts cfg"
  shows "slot p (insertToast cfg toast s) =
           (if p = position toast
            then take (nat (maxToasts cfg)) (toast # slot p s) else slot p s)"
proof -
  let ?same = "toast # slot (position toast) s"
  let ?others = "filter (\<lambda>t. position t \<noteq> position toast) (toasts s)"
  have e: "slot p (insertToast cfg toast s) =
           filter (\<lambda>t. position t = p) (take (nat (maxToasts cfg)) ?same) @
           filter (\<lambda>t. position t = p) ?others"
    unfolding slot_def [of p "insertToast cfg toast s"] toasts_insertToast_nonneg [OF m]
    by simp
  have same: "\<forall>t \<in> set (take k ?same). position t = position toast" for k
    by (auto simp: slot_def dest!: in_set_takeD)
  show ?thesis
  proof (cases "p = position toast")
    case True
    have "filter (\<lambda>t. position t = p) (take (nat (maxToasts cfg)) ?same) =
          take (nat (maxToasts cfg)) ?same"
      using same True by (simp only: filter_id_conv) 
    moreover have "filter (\<lambda>t. position t = p) ?others = []"
      using True by (simp add: filter_empty_conv)
    ultimately show ?thesis using True e by simp
  next
    case False
    have "filter (\<lambda>t. position t = p) (take (nat (maxToasts cfg)) ?same) = []"
      using same False by (simp only: filter_empty_conv) blast
    moreover have "filter (\<lambda>t. position t = p) ?others = slot p s"
      using False unfolding slot_def by (auto intro!: filter_cong)
    ultimately show ?thesis using False e by simp
  qed
qed

lemma slot_creates:
  assumes m: "0 \<le> maxToasts cfg" and c: "list_all isCreate cs"
  shows "slot p (run cfg cs initialState) =
           take (nat (maxToasts cfg)) (filter (\<lambda>t. position t = p) (rev (created cfg 0 cs)))"
  using c
proof (induction cs arbitrary: p rule: rev_induct)
  case Nil
  then show ?case by (simp add: run_def slot_def initialState_def)
next
  case (snoc c cs)
  from snoc.prems have cs: "list_all isCreate cs" and ic: "isCreate c" by simp_all
  from ic obtain rnd msg options
    where c: "c = Create rnd msg options \<or> c = CreateDeferred rnd msg options"
    by (cases c) simp_all
  have k: "clock (run cfg cs initialState) = 0"
    using creates_keep_clock_and_log [OF cs, of cfg initialState] by (simp add: initialState_def)
  let ?t = "newToast cfg rnd msg options 0"
  have cr: "created cfg 0 (cs @ [c]) = created cfg 0 cs @ [?t]"
    using c by (auto simp: created_append)
  have "slot p (run cfg (cs @ [c]) initialState) =
        slot p (insertToast cfg ?t (run cfg cs initialState))"
    using c by (auto simp: run_snoc slot_def toasts_createToast toasts_createToastDeferred k)
  also have "\<dots> = (if p = position ?t
                   then take (nat (maxToasts cfg)) (?t # slot p (run cfg cs initialState))
                   else slot p (run cfg cs initialState))"
    by (rule slot_insertToast [OF m])
  also have "\<dots> = take (nat (maxToasts cfg))
                    (filter (\<lambda>t. position t = p) (rev (created cfg 0 (cs @ [c]))))"
    by (simp add: snoc.IH [OF cs] cr take_Cons_take)
  finally show ?case .
qed

lemma expiry_clearTimer_subset:
  "set (expiryTargets (pending (clearTimer j s))) \<subseteq> set (expiryTargets (pending s))"
  by (auto simp: set_expiryTargets pending_clearTimer split: option.splits)

lemma expiry_fold_clearTimer:
  "wellFormed s \<Longrightarrow>
   set (expiryTargets (pending (fold (\<lambda>t. clearTimer (toast_id t)) ts s)))
     \<subseteq> set (expiryTargets (pending s)) - toast_id ` set ts"
proof (induction ts arbitrary: s)
  case Nil
  then show ?case by simp
next
  case (Cons t ts)
  let ?c = "clearTimer (toast_id t) s"
  have w: "wellFormed ?c" by (rule wellFormed_clearTimer [OF Cons.prems])
  have g: "toast_id t \<notin> set (expiryTargets (pending ?c))"
    using no_expiry_after_clearTimer [of s _ "toast_id t"] Cons.prems
    by (auto simp: set_expiryTargets wellFormed_def)
  show ?case
    using Cons.IH [OF w] g expiry_clearTimer_subset [of "toast_id t" s] by auto
qed

lemma expiry_setTimer_subset:
  "set (expiryTargets (pending (setTimer i d s))) \<subseteq> insert i (set (expiryTargets (pending s)))"
proof (cases "0 < d")
  case True
  show ?thesis
    using expiry_clearTimer_subset [of i s] by (auto simp: setTimer_positive [OF True])
next
  case False
  then show ?thesis by (auto simp: setTimer_nonpositive)
qed

lemma evicted_timers_cancelled:
  assumes w: "wellFormed s"
    and old: "t \<in> set (toasts s)"
    and gone: "t \<notin> set (toasts (insertToast cfg toast s))"
  shows "toast_id t \<notin> set (expiryTargets (pending (insertToast cfg toast s)))"
proof -
  let ?same = "toast # filter (\<lambda>t. position t = position toast) (toasts s)"
  let ?k = "sliceIndex (maxToasts cfg) (length ?same)"
  have over: "int (length ?same) > maxToasts cfg"
  proof (rule ccontr)
    assume "\<not> int (length ?same) > maxToasts cfg"
    then have "toasts (insertToast cfg toast s) =
               ?same @ filter (\<lambda>t. position t \<noteq> position toast) (toasts s)"
      by (simp add: toasts_insertToast Let_def)
    with old gone show False by auto
  qed
  then have ts: "toasts (insertToast cfg toast s) =
             take ?k ?same @ filter (\<lambda>t. position t \<noteq> position toast) (toasts s)"
    by (simp add: toasts_insertToast Let_def)
  have "t \<in> set ?same" using old gone ts by auto
  then have "t \<in> set (take ?k ?same) \<union> set (drop ?k ?same)"
    by (simp only: set_append [symmetric] append_take_drop_id)
  with gone ts have "t \<in> set (drop ?k ?same)" by auto
  then have "toast_id t \<in> toast_id ` set (sliceFrom (maxToasts cfg) ?same)"
    by (simp add: sliceFrom_def)
  moreover have "pending (insertToast cfg toast s) =
        pending (fold (\<lambda>t. clearTimer (toast_id t)) (sliceFrom (maxToasts cfg) ?same) s)"
    using over by (simp add: insertToast_def Let_def)
  ultimately show ?thesis
    using expiry_fold_clearTimer [OF w, of "sliceFrom (maxToasts cfg) ?same"] by auto
qed

lemma createToast_unfold:
  "snd (createToast cfg rnd msg options s) =
     (let toast = newToast cfg rnd msg options (clock s)
      in if duration toast > 0
         then setTimer (toast_id toast) (duration toast) (insertToast cfg toast s)
         else insertToast cfg toast s)"
  "fst (createToast cfg rnd msg options s) = toast_id (newToast cfg rnd msg options (clock s))"
  by (simp_all add: createToast_def Let_def)

lemma createToast_cancels_evicted:
  assumes w: "wellFormed s"
    and old: "t \<in> set (toasts s)"
    and gone: "t \<notin> set (toasts (snd (createToast cfg rnd msg options s)))"
    and other: "toast_id t \<noteq> fst (createToast cfg rnd msg options s)"
  shows "toast_id t \<notin> set (expiryTargets (pending (snd (createToast cfg rnd msg options s))))"
proof -
  let ?toast = "newToast cfg rnd msg options (clock s)"
  from gone have g: "t \<notin> set (toasts (insertToast cfg ?toast s))"
    by (simp add: toasts_createToast)
  have n: "toast_id t \<notin> set (expiryTargets (pending (insertToast cfg ?toast s)))"
    by (rule evicted_timers_cancelled [OF w old g])
  show ?thesis
    using n other expiry_setTimer_subset [of "toast_id ?toast" "duration ?toast" "insertToast cfg ?toast s"]
    by (auto simp: createToast_unfold Let_def)
qed

lemma createToastDeferred_cancels_evicted:
  assumes w: "wellFormed s"
    and old: "t \<in> set (toasts s)"
    and gone: "t \<notin> set (toasts (snd (createToastDeferred cfg rnd msg options s)))"
  shows "toast_id t \<notin> set (expiryTargets (pending (snd (createToastDeferred cfg rnd msg options s))))"
proof -
  let ?toast = "newToast cfg rnd msg options (clock s)"
  let ?u = "if duration ?toast > 0 then setTimer (toast_id ?toast) (duration ?toast) s else s"
  have e: "snd (createToastDeferred cfg rnd msg options s) = insertToast cfg ?toast ?u"
    by (simp add: createToastDeferred_def Let_def)
  have wu: "wellFormed ?u" using w by (simp add: wellFormed_setTimer)
  have ou: "t \<in> set (toasts ?u)" using old by simp
  have gu: "t \<notin> set (toasts (insertToast cfg ?toast ?u))" using gone unfolding e .
  show ?thesis
    unfolding e by (rule evicted_timers_cancelled [OF wu ou gu])
qed

section \<open>Which timer runs next\<close>

lemma earliest_None_iff: "earliest ts = None \<longleftrightarrow> ts = []"
  by (cases ts) (auto split: option.splits)

lemma earliest_least: "earliest ts = Some t \<Longrightarrow> u \<in> set ts \<Longrightarrow> due t \<le> due u"
proof (induction ts arbitrary: t)
  case Nil
  then show ?case by simp
next
  case (Cons a ts)
  show ?case
  proof (cases "earliest ts")
    case None
    then have "ts = []" by (simp add: earliest_None_iff)
    with Cons.prems None show ?thesis by simp
  next
    case (Some b)
    with Cons.prems Cons.IH [OF Some] show ?thesis
      by (auto split: if_splits)
  qed
qed

text \<open>The timer that runs next splits the queue: the timers before it are due strictly
  later, the timers after it are not due earlier.\<close>

lemma earliest_split:
  "earliest ts = Some t \<Longrightarrow>
   \<exists>as bs. ts = as @ t # bs \<and> (\<forall>a \<in> set as. due t < due a) \<and> (\<forall>b \<in> set bs. due t \<le> due b)"
proof (induction ts arbitrary: t)
  case Nil
  then show ?case by simp
next
  case (Cons a ts)
  show ?case
  proof (cases "earliest ts")
    case None
    then have "ts = []" by (simp add: earliest_None_iff)
    with Cons.prems None have "a # ts = [] @ t # []" by simp
    then show ?thesis by (metis empty_iff list.set(1))
  next
    case (Some b)
    show ?thesis
    proof (cases "due b < due a")
      case True
      with Cons.prems Some have tb: "t = b" by simp
      from Cons.IH [OF Some] obtain as bs where
        s: "ts = as @ b # bs" "\<forall>x \<in> set as. due b < due x" "\<forall>x \<in> set bs. due b \<le> due x"
        by blast
      have "a # ts = (a # as) @ t # bs" using s(1) tb by simp
      moreover have "\<forall>x \<in> set (a # as). due t < due x" using s(2) True tb by simp
      moreover have "\<forall>x \<in> set bs. due t \<le> due x" using s(3) tb by simp
      ultimately show ?thesis by blast
    next
      case False
      with Cons.prems Some have ta: "t = a" by simp
      have "\<forall>x \<in> set ts. due t \<le> due x"
        using earliest_least [OF Some] False ta by force
      moreover have "a # ts = [] @ t # ts" using ta by simp
      ultimately show ?thesis by (metis empty_iff list.set(1))
    qed
  qed
qed

lemma earliest_splitI:
  "(\<forall>a \<in> set as. due t < due a) \<Longrightarrow> (\<forall>b \<in> set bs. due t \<le> due b) \<Longrightarrow>
   earliest (as @ t # bs) = Some t"
proof (induction as)
  case Nil
  show ?case
  proof (cases "earliest bs")
    case None
    then show ?thesis by simp
  next
    case (Some b)
    then have "b \<in> set bs" by (rule earliest_in)
    with Nil Some show ?thesis by auto
  qed
next
  case (Cons a as)
  then show ?case by auto
qed

lemma nextTimer_None_iff: "nextTimer limit ts = None \<longleftrightarrow> (\<forall>t \<in> set ts. limit < due t)"
  by (auto simp: nextTimer_def earliest_None_iff filter_empty_conv not_le)

lemma nextTimer_split:
  assumes "nextTimer limit ts = Some t"
  shows "\<exists>as bs. ts = as @ t # bs \<and> due t \<le> limit \<and>
           (\<forall>a \<in> set as. due t < due a) \<and> (\<forall>b \<in> set bs. due t \<le> due b)"
  using assms
proof (induction ts arbitrary: t)
  case Nil
  then show ?case by (simp add: nextTimer_def)
next
  case (Cons a ts)
  have dt: "due t \<le> limit" using nextTimer_in [OF Cons.prems] by simp
  show ?case
  proof (cases "due a \<le> limit")
    case False
    with Cons.prems have "nextTimer limit ts = Some t" by (simp add: nextTimer_def)
    from Cons.IH [OF this] obtain as bs where
      s: "ts = as @ t # bs" "\<forall>x \<in> set as. due t < due x" "\<forall>x \<in> set bs. due t \<le> due x"
      by blast
    have "a # ts = (a # as) @ t # bs" using s(1) by simp
    moreover have "\<forall>x \<in> set (a # as). due t < due x" using s(2) False dt by simp
    ultimately show ?thesis using s(3) dt by blast
  next
    case True
    show ?thesis
    proof (cases "nextTimer limit ts")
      case None
      with Cons.prems True have ta: "t = a" by (simp add: nextTimer_def)
      from None have "\<forall>x \<in> set ts. due t \<le> due x"
        using dt by (force simp: nextTimer_None_iff)
      moreover have "a # ts = [] @ t # ts" using ta by simp
      ultimately show ?thesis using dt by (metis empty_iff list.set(1))
    next
      case (Some b)
      show ?thesis
      proof (cases "due b < due a")
        case lt: True
        with Cons.prems True Some have tb: "t = b" by (simp add: nextTimer_def)
        from Cons.IH [OF Some] obtain as bs where
          s: "ts = as @ b # bs" "\<forall>x \<in> set as. due b < due x" "\<forall>x \<in> set bs. due b \<le> due x"
          by blast
        have "a # ts = (a # as) @ t # bs" using s(1) tb by simp
        moreover have "\<forall>x \<in> set (a # as). due t < due x" using s(2) lt tb by simp
        moreover have "\<forall>x \<in> set bs. due t \<le> due x" using s(3) tb by simp
        ultimately show ?thesis using dt by blast
      next
        case ge: False
        with Cons.prems True Some have ta: "t = a" by (simp add: nextTimer_def)
        from Cons.IH [OF Some] obtain as bs where
          s: "ts = as @ b # bs" "\<forall>x \<in> set as. due b < due x" "\<forall>x \<in> set bs. due b \<le> due x"
          by blast
        have "\<forall>x \<in> set ts. due t \<le> due x"
          using s ge ta by force
        moreover have "a # ts = [] @ t # ts" using ta by simp
        ultimately show ?thesis using dt by (metis empty_iff list.set(1))
      qed
    qed
  qed
qed

lemma nextTimer_splitI:
  assumes "due t \<le> limit" "\<forall>a \<in> set as. due t < due a" "\<forall>b \<in> set bs. due t \<le> due b"
  shows "nextTimer limit (as @ t # bs) = Some t"
proof -
  have "filter (\<lambda>x. due x \<le> limit) (as @ t # bs) =
        filter (\<lambda>x. due x \<le> limit) as @ t # filter (\<lambda>x. due x \<le> limit) bs"
    using assms(1) by simp
  then show ?thesis
    unfolding nextTimer_def using assms(2,3) by (simp add: earliest_splitI)
qed

lemma nextTimer_least:
  "nextTimer limit ts = Some t \<Longrightarrow> u \<in> set ts \<Longrightarrow> due t \<le> due u"
  using nextTimer_split [of limit ts t] by (force simp: less_imp_le)

lemma nextTimer_remove1:
  assumes "nextTimer limit ts = Some t"
  shows "\<exists>as bs. ts = as @ t # bs \<and> remove1 t ts = as @ bs \<and> t \<notin> set as \<and>
           (\<forall>a \<in> set as. due t < due a) \<and> (\<forall>b \<in> set bs. due t \<le> due b)"
proof -
  from nextTimer_split [OF assms] obtain as bs where
    s: "ts = as @ t # bs" "\<forall>a \<in> set as. due t < due a" "\<forall>b \<in> set bs. due t \<le> due b"
    by blast
  from s(2) have n: "t \<notin> set as" by auto
  then have "remove1 t ts = as @ bs" using s(1) by (simp add: remove1_append)
  with s n show ?thesis by blast
qed

section \<open>Timers are never overdue\<close>

lemma punctual_shrink:
  "punctual s \<Longrightarrow> set (pending u) \<subseteq> set (pending s) \<Longrightarrow> clock u = clock s \<Longrightarrow> punctual u"
  by (auto simp: punctual_def)

lemma set_pending_clearTimer: "set (pending (clearTimer i s)) \<subseteq> set (pending s)"
  by (auto simp: pending_clearTimer split: option.splits)

lemma punctual_clearTimer: "punctual s \<Longrightarrow> punctual (clearTimer i s)"
  by (erule punctual_shrink) (simp_all add: set_pending_clearTimer)

lemma punctual_setTimer: "punctual s \<Longrightarrow> punctual (setTimer i d s)"
proof (cases "0 < d")
  case True
  assume "punctual s"
  then have "punctual (clearTimer i s)" by (rule punctual_clearTimer)
  then show ?thesis by (auto simp: punctual_def setTimer_positive [OF True])
next
  case False
  assume "punctual s"
  with False show ?thesis by (simp add: setTimer_nonpositive)
qed

lemma punctual_dismiss: "punctual s \<Longrightarrow> punctual (dismiss i s)"
proof -
  assume "punctual s"
  then have "punctual (clearTimer i s)" by (rule punctual_clearTimer)
  then show ?thesis by (auto simp: punctual_def pending_dismiss)
qed

lemma punctual_purge: "punctual s \<Longrightarrow> punctual (purge i s)"
  by (simp add: punctual_def pending_purge)

lemma punctual_fire:
  assumes p: "punctual s" and n: "nextTimer limit (pending s) = Some t"
  shows "punctual (fire t s)" and "clock (fire t s) = due t"
proof -
  from n have m: "t \<in> set (pending s)" by (simp add: nextTimer_in)
  with p have c: "clock s \<le> due t" by (simp add: punctual_def)
  then show k: "clock (fire t s) = due t" by simp
  let ?s1 = "s\<lparr> pending := remove1 t (pending s), clock := max (clock s) (due t) \<rparr>"
  have "punctual ?s1"
    using nextTimer_least [OF n] c by (auto simp: punctual_def dest!: in_remove1D)
  then show "punctual (fire t s)"
    by (cases "callback t") (simp_all add: fire_def punctual_dismiss punctual_purge)
qed

lemma punctual_runUntil: "punctual s \<Longrightarrow> punctual (runUntil limit s)"
proof (rule runUntil_invariant [where P = punctual])
  fix u t
  assume "punctual u" "nextTimer limit (pending u) = Some t"
  then show "punctual (fire t u)" by (rule punctual_fire)
next
  fix u
  assume "punctual u" "nextTimer limit (pending u) = None"
  then show "punctual (u\<lparr> clock := max (clock u) limit \<rparr>)"
    by (auto simp: punctual_def nextTimer_None_iff)
qed

lemma set_pending_fold_clearTimer:
  "set (pending (fold (\<lambda>t. clearTimer (toast_id t)) ts s)) \<subseteq> set (pending s)"
proof (induction ts arbitrary: s)
  case Nil
  show ?case by simp
next
  case (Cons t ts)
  show ?case
    using Cons [of "clearTimer (toast_id t) s"] set_pending_clearTimer [of "toast_id t" s]
    by auto
qed

lemma punctual_insertToast: "punctual s \<Longrightarrow> punctual (insertToast cfg toast s)"
proof (erule punctual_shrink)
  show "set (pending (insertToast cfg toast s)) \<subseteq> set (pending s)"
    using set_pending_fold_clearTimer [of _ s] by (auto simp: insertToast_def Let_def)
  show "clock (insertToast cfg toast s) = clock s" by simp
qed

lemma punctual_createToast: "punctual s \<Longrightarrow> punctual (snd (createToast cfg rnd msg options s))"
  by (simp add: createToast_unfold Let_def punctual_insertToast punctual_setTimer)

lemma punctual_createToastDeferred:
  "punctual s \<Longrightarrow> punctual (snd (createToastDeferred cfg rnd msg options s))"
  by (simp add: createToastDeferred_def Let_def punctual_insertToast punctual_setTimer)

lemma punctual_update: "punctual s \<Longrightarrow> punctual (update i msg options s)"
proof -
  assume p: "punctual s"
  have "punctual (s\<lparr> toasts := ts \<rparr>)" for ts
    using p by (simp add: punctual_def)
  then show ?thesis
    by (simp add: update_def Let_def punctual_setTimer split: option.splits)
qed

lemma punctual_dismissAll: "punctual s \<Longrightarrow> punctual (dismissAll s)"
  by (erule punctual_shrink) (auto simp: pending_dismissAll)

lemma punctual_exec: "punctual s \<Longrightarrow> punctual (exec cfg c s)"
  by (cases c)
     (simp_all add: punctual_createToast punctual_createToastDeferred punctual_update
        punctual_dismiss punctual_dismissAll
        punctual_runUntil advanceTimersByTime_def)

lemma punctual_run: "punctual s \<Longrightarrow> punctual (run cfg cs s)"
  unfolding run_def by (induction cs arbitrary: s) (simp_all add: punctual_exec)

lemma punctual_reachable: "punctual (run cfg cs initialState)"
  by (rule punctual_run) (simp add: punctual_def initialState_def)

section \<open>What concerns one id\<close>

lemma markRemoving_other: "toast_id t \<noteq> i \<Longrightarrow> markRemoving i t = t"
  by (simp add: markRemoving_def)

lemma toastsOf_markRemoving_other:
  assumes "i \<noteq> x"
  shows "filter (\<lambda>t. toast_id t = x) (map (markRemoving i) ts) = filter (\<lambda>t. toast_id t = x) ts"
  using assms by (induction ts) (auto simp: markRemoving_def)

lemma find_filter:
  "find P ts = (case filter P ts of [] \<Rightarrow> None | a # _ \<Rightarrow> Some a)"
  by (induction ts) auto

lemma fire_other_toasts:
  assumes "target t \<noteq> x"
  shows "toastsOf x (fire t u) = toastsOf x u"
proof (cases "callback t")
  case (AutoDismiss i)
  with assms have "i \<noteq> x" by simp
  then show ?thesis
    using AutoDismiss by (simp add: toastsOf_def toasts_fire toastsOf_markRemoving_other)
next
  case (Purge i)
  with assms have "i \<noteq> x" by simp
  then have "filter (\<lambda>t. toast_id t = x) (filter (\<lambda>t. toast_id t \<noteq> i) (toasts u)) =
             filter (\<lambda>t. toast_id t = x) (toasts u)"
    by (auto intro!: filter_cong)
  then show ?thesis using Purge by (simp add: toastsOf_def toasts_fire)
qed

lemma fire_other_closed:
  assumes "target t \<noteq> x"
  shows "closedOf x (fire t u) = closedOf x u"
proof (cases "callback t")
  case (AutoDismiss i)
  then show ?thesis by (simp add: closedOf_def closeLog_fire)
next
  case (Purge i)
  with assms have "i \<noteq> x" by simp
  then show ?thesis
    using Purge
    by (auto simp: closedOf_def closeLog_fire closeLog_purge split: option.splits
          dest: find_id_Some)
qed

lemma timersFor_clearTimer_other:
  assumes w: "wellFormed u" and o: "i \<noteq> x"
  shows "timersFor x (clearTimer i u) = timersFor x u"
proof (cases "map_of (timersRef u) i")
  case None
  then show ?thesis by (simp add: timersFor_def pending_clearTimer)
next
  case (Some h)
  from w have ow: "owned u" by (simp add: wellFormed_def)
  have "handle t \<noteq> h" if "t \<in> set (pending u)" "target t = x" for t
  proof
    assume "handle t = h"
    with ow that(1) Some have "callback t = AutoDismiss i" by (auto simp: owned_def)
    with that(2) o show False by simp
  qed
  then have "filter (\<lambda>t. target t = x) (filter (\<lambda>t. handle t \<noteq> h) (pending u)) =
             filter (\<lambda>t. target t = x) (pending u)"
    by (auto intro!: filter_cong)
  with Some show ?thesis by (simp add: timersFor_def pending_clearTimer)
qed

lemma fire_other_timers:
  assumes w: "wellFormed u" and o: "target t \<noteq> x"
  shows "timersFor x (fire t u) = timersFor x u"
proof -
  let ?u1 = "u\<lparr> pending := remove1 t (pending u), clock := max (clock u) (due t) \<rparr>"
  have w1: "wellFormed ?u1"
    using wellFormed_pending_subset(2,3) [OF w] wellFormed_pending_subset(3) by metis
  have r: "timersFor x ?u1 = timersFor x u"
    using o by (simp add: timersFor_def filter_remove1 remove1_idem)
  show ?thesis
  proof (cases "callback t")
    case (AutoDismiss i)
    with o have ix: "i \<noteq> x" by simp
    have "timersFor x (dismiss i ?u1) = timersFor x (clearTimer i ?u1)"
      using ix by (simp add: timersFor_def pending_dismiss)
    also have "\<dots> = timersFor x ?u1" by (rule timersFor_clearTimer_other [OF w1 ix])
    finally show ?thesis using AutoDismiss r by (simp add: fire_def)
  next
    case (Purge i)
    then show ?thesis using r by (simp add: fire_def timersFor_def pending_purge)
  qed
qed

section \<open>The life of one toast\<close>

lemma in_timersFor: "t \<in> set (pending u) \<Longrightarrow> target t = x \<Longrightarrow> t \<in> set (timersFor x u)"
  by (simp add: timersFor_def)

lemma awaiting_other:
  assumes a: "awaiting x toast e log u" and o: "target t \<noteq> x"
    and n: "nextTimer limit (pending u) = Some t"
  shows "awaiting x toast e log (fire t u)"
  using a fire_other_toasts [OF o, of u] fire_other_closed [OF o, of u]
    fire_other_timers [OF _ o, of u] wellFormed_fire [of u t] punctual_fire(1) [OF _ n]
  by (simp add: awaiting_def)

lemma awaiting_expiry:
  assumes a: "awaiting x toast e log u" and c: "callback e = AutoDismiss x"
    and i: "toast_id toast = x" and n: "nextTimer limit (pending u) = Some e"
  shows "leaving x toast (due e + 300) log (fire e u)"
proof -
  from a have w: "wellFormed u" and p: "punctual u" and ts: "toastsOf x u = [toast]"
    and tm: "timersFor x u = [e]" and lg: "closedOf x u = log"
    by (simp_all add: awaiting_def)
  let ?u1 = "u\<lparr> pending := remove1 e (pending u), clock := max (clock u) (due e) \<rparr>"
  have f: "fire e u = dismiss x ?u1" using c by (simp add: fire_def)
  have k: "clock ?u1 = due e" using punctual_fire(2) [OF p n] by simp
  have "timersFor x ?u1 = remove1 e (timersFor x u)"
    by (simp add: timersFor_def filter_remove1)
  then have e1: "timersFor x ?u1 = []" using tm by simp
  have "set (timersFor x (clearTimer x ?u1)) \<subseteq> set (timersFor x ?u1)"
    using set_pending_clearTimer [of x ?u1] by (auto simp: timersFor_def)
  with e1 have e2: "timersFor x (clearTimer x ?u1) = []" by simp
  have "timersFor x (fire e u) =
        timersFor x (clearTimer x ?u1) @
          [\<lparr> handle = nextHandle ?u1, due = clock ?u1 + 300, callback = Purge x \<rparr>]"
    unfolding f by (simp add: timersFor_def pending_dismiss)
  then have t': "timersFor x (fire e u) =
        [\<lparr> handle = nextHandle u, due = due e + 300, callback = Purge x \<rparr>]"
    using e2 k by simp
  have "toastsOf x (fire e u) = map (markRemoving x) (toastsOf x u)"
    unfolding f by (simp add: toastsOf_def filter_id_markRemoving)
  then have s': "toastsOf x (fire e u) = [toast\<lparr> removing := True \<rparr>]"
    using ts i by (simp add: markRemoving_def)
  have l': "closedOf x (fire e u) = log"
    unfolding f using lg by (simp add: closedOf_def)
  show ?thesis
    using wellFormed_fire [OF w, of e] punctual_fire(1) [OF p n] s' t' l'
    by (simp add: leaving_def)
qed

lemma awaiting_step:
  assumes a: "awaiting x toast e log u" and c: "callback e = AutoDismiss x"
    and i: "toast_id toast = x" and n: "nextTimer limit (pending u) = Some t"
  shows "if t = e then leaving x toast (due e + 300) log (fire t u)
         else awaiting x toast e log (fire t u)"
proof (cases "target t = x")
  case True
  from n have "t \<in> set (pending u)" by (simp add: nextTimer_in)
  with True have "t \<in> set (timersFor x u)" by (simp add: timersFor_def)
  with a have "t = e" by (simp add: awaiting_def)
  with awaiting_expiry [OF a c i] n show ?thesis by simp
next
  case False
  with c have "t \<noteq> e" by auto
  with awaiting_other [OF a False n] show ?thesis by simp
qed

lemma leaving_other:
  assumes a: "leaving x toast T log u" and o: "target t \<noteq> x"
    and n: "nextTimer limit (pending u) = Some t"
  shows "leaving x toast T log (fire t u)"
  using a fire_other_toasts [OF o, of u] fire_other_closed [OF o, of u]
    fire_other_timers [OF _ o, of u] wellFormed_fire [of u t] punctual_fire(1) [OF _ n]
  by (simp add: leaving_def)

lemma leaving_purge:
  assumes a: "leaving x toast T log u" and i: "toast_id toast = x"
    and n: "nextTimer limit (pending u) = Some t" and o: "target t = x"
  shows "gone x (log @ closeCall toast) (fire t u)" and "due t = T"
proof -
  from a obtain h where ts: "toastsOf x u = [toast\<lparr> removing := True \<rparr>]"
    and tm: "timersFor x u = [\<lparr> handle = h, due = T, callback = Purge x \<rparr>]"
    and lg: "closedOf x u = log"
    by (auto simp: leaving_def)
  from n have "t \<in> set (pending u)" by (simp add: nextTimer_in)
  with o have "t \<in> set (timersFor x u)" by (simp add: timersFor_def)
  with tm have t: "t = \<lparr> handle = h, due = T, callback = Purge x \<rparr>" by simp
  then show "due t = T" by simp
  let ?u1 = "u\<lparr> pending := remove1 t (pending u), clock := max (clock u) (due t) \<rparr>"
  have f: "fire t u = purge x ?u1" using t by (simp add: fire_def)
  have "find (\<lambda>t. toast_id t = x) (toasts u) = Some (toast\<lparr> removing := True \<rparr>)"
    using ts by (simp add: find_filter toastsOf_def)
  then have "closeLog (fire t u) = closeLog u @ closeCall toast"
    unfolding f using i by (simp add: closeLog_purge closeCall_def split: option.splits)
  then have "closedOf x (fire t u) = log @ closeCall toast"
    using lg i by (auto simp: closedOf_def closeCall_def split: option.splits)
  moreover have "toastsOf x (fire t u) = []"
    unfolding f by (simp add: toastsOf_def filter_empty_conv)
  ultimately show "gone x (log @ closeCall toast) (fire t u)" by (simp add: gone_def)
qed

lemma gone_step:
  assumes g: "gone x log u"
  shows "gone x log (fire t u)"
proof (cases "target t = x")
  case False
  then show ?thesis
    using g fire_other_toasts [OF False, of u] fire_other_closed [OF False, of u]
    by (simp add: gone_def)
next
  case True
  from g have e: "filter (\<lambda>t. toast_id t = x) (toasts u) = []" and l: "closedOf x u = log"
    by (simp_all add: gone_def toastsOf_def)
  show ?thesis
  proof (cases "callback t")
    case (AutoDismiss i)
    then show ?thesis
      using e l by (simp add: gone_def toastsOf_def closedOf_def toasts_fire closeLog_fire
                      filter_id_markRemoving)
  next
    case (Purge i)
    with True have "i = x" by simp
    then show ?thesis
      using e l Purge
      by (simp add: gone_def toastsOf_def closedOf_def toasts_fire closeLog_fire
            closeLog_purge find_filter filter_empty_conv)
  qed
qed

lemma runUntil_rest: "t \<in> set (pending (runUntil limit u)) \<Longrightarrow> limit < due t"
proof (induction limit u rule: runUntil.induct)
  case (1 limit s)
  show ?case
  proof (cases "nextTimer limit (pending s)")
    case None
    with "1.prems" show ?thesis
      by (simp add: runUntil_None nextTimer_None_iff)
  next
    case (Some e)
    with "1.prems" "1.IH" [OF Some] show ?thesis
      by (simp add: runUntil_Some)
  qed
qed

lemma clock_runUntil: "clock (runUntil limit u) = max (clock u) limit"
proof (induction limit u rule: runUntil.induct)
  case (1 limit s)
  show ?case
  proof (cases "nextTimer limit (pending s)")
    case None
    then show ?thesis by (simp add: runUntil_None)
  next
    case (Some e)
    then have "due e \<le> limit" by (simp add: nextTimer_in)
    with "1.IH" [OF Some] Some show ?thesis
      by (simp add: runUntil_Some)
  qed
qed

lemma punctual_rest:
  "punctual u \<Longrightarrow> nextTimer limit (pending u) = None \<Longrightarrow>
   punctual (u\<lparr> clock := max (clock u) limit \<rparr>)"
  by (auto simp: punctual_def nextTimer_None_iff)

lemma stage_rest:
  assumes n: "nextTimer limit (pending u) = None"
  shows "awaiting x toast e log u \<Longrightarrow> awaiting x toast e log (u\<lparr> clock := max (clock u) limit \<rparr>)"
    and "leaving x toast T log u \<Longrightarrow> leaving x toast T log (u\<lparr> clock := max (clock u) limit \<rparr>)"
    and "gone x log u \<Longrightarrow> gone x log (u\<lparr> clock := max (clock u) limit \<rparr>)"
  using punctual_rest [OF _ n] wellFormed_pending_subset(3) [of u "max (clock u) limit"]
  by (simp_all add: awaiting_def leaving_def gone_def toastsOf_def timersFor_def closedOf_def)

lemma awaiting_before:
  assumes a: "awaiting x toast e log u" and c: "callback e = AutoDismiss x"
    and i: "toast_id toast = x" and l: "limit < due e"
  shows "awaiting x toast e log (runUntil limit u)"
proof (rule runUntil_invariant [where P = "awaiting x toast e log"])
  show "awaiting x toast e log u" by (rule a)
next
  fix v t
  assume v: "awaiting x toast e log v" and n: "nextTimer limit (pending v) = Some t"
  from n have "due t \<le> limit" by (simp add: nextTimer_in)
  with l have "t \<noteq> e" by auto
  with awaiting_step [OF v c i n] show "awaiting x toast e log (fire t v)" by simp
next
  fix v
  assume "awaiting x toast e log v" "nextTimer limit (pending v) = None"
  then show "awaiting x toast e log (v\<lparr> clock := max (clock v) limit \<rparr>)"
    by (simp add: stage_rest)
qed

lemma awaiting_at:
  assumes a: "awaiting x toast e log u" and c: "callback e = AutoDismiss x"
    and i: "toast_id toast = x" and l: "due e \<le> limit" "limit < due e + 300"
  shows "leaving x toast (due e + 300) log (runUntil limit u)"
proof -
  let ?P = "\<lambda>v. awaiting x toast e log v \<or> leaving x toast (due e + 300) log v"
  have "?P (runUntil limit u)"
  proof (rule runUntil_invariant [where P = ?P])
    show "?P u" using a by simp
  next
    fix v t
    assume v: "?P v" and n: "nextTimer limit (pending v) = Some t"
    show "?P (fire t v)"
    proof (cases "awaiting x toast e log v")
      case True
      with awaiting_step [OF True c i n] show ?thesis by (auto split: if_splits)
    next
      case False
      with v have lv: "leaving x toast (due e + 300) log v" by simp
      from n have "due t \<le> limit" by (simp add: nextTimer_in)
      with l(2) leaving_purge(2) [OF lv i n] have "target t \<noteq> x" by auto
      with leaving_other [OF lv _ n] show ?thesis by simp
    qed
  next
    fix v
    assume "?P v" "nextTimer limit (pending v) = None"
    then show "?P (v\<lparr> clock := max (clock v) limit \<rparr>)"
      by (auto simp: stage_rest)
  qed
  moreover have "\<not> awaiting x toast e log (runUntil limit u)"
  proof
    assume "awaiting x toast e log (runUntil limit u)"
    then have "e \<in> set (timersFor x (runUntil limit u))" by (simp add: awaiting_def)
    then have "e \<in> set (pending (runUntil limit u))" by (simp add: timersFor_def)
    then have "limit < due e" by (rule runUntil_rest)
    with l(1) show False by simp
  qed
  ultimately show ?thesis by simp
qed

lemma leaving_before:
  assumes a: "leaving x toast T log u" and i: "toast_id toast = x" and l: "limit < T"
  shows "leaving x toast T log (runUntil limit u)"
proof (rule runUntil_invariant [where P = "leaving x toast T log"])
  show "leaving x toast T log u" by (rule a)
next
  fix v t
  assume v: "leaving x toast T log v" and n: "nextTimer limit (pending v) = Some t"
  from n have "due t \<le> limit" by (simp add: nextTimer_in)
  with l leaving_purge(2) [OF v i n] have "target t \<noteq> x" by auto
  with leaving_other [OF v _ n] show "leaving x toast T log (fire t v)" by simp
next
  fix v
  assume "leaving x toast T log v" "nextTimer limit (pending v) = None"
  then show "leaving x toast T log (v\<lparr> clock := max (clock v) limit \<rparr>)"
    by (simp add: stage_rest)
qed

lemma gone_forever:
  assumes "gone x log u"
  shows "gone x log (runUntil limit u)"
proof (rule runUntil_invariant [where P = "gone x log"])
  show "gone x log u" by (rule assms)
next
  fix v t
  assume "gone x log v"
  then show "gone x log (fire t v)" by (rule gone_step)
next
  fix v
  assume "gone x log v" "nextTimer limit (pending v) = None"
  then show "gone x log (v\<lparr> clock := max (clock v) limit \<rparr>)"
    by (simp add: stage_rest)
qed

lemma leaving_at:
  assumes a: "leaving x toast T log u" and i: "toast_id toast = x" and l: "T \<le> limit"
  shows "gone x (log @ closeCall toast) (runUntil limit u)"
proof -
  let ?P = "\<lambda>v. leaving x toast T log v \<or> gone x (log @ closeCall toast) v"
  have "?P (runUntil limit u)"
  proof (rule runUntil_invariant [where P = ?P])
    show "?P u" using a by simp
  next
    fix v t
    assume v: "?P v" and n: "nextTimer limit (pending v) = Some t"
    show "?P (fire t v)"
    proof (cases "leaving x toast T log v")
      case True
      show ?thesis
      proof (cases "target t = x")
        case tx: True
        with leaving_purge(1) [OF True i n] show ?thesis by simp
      next
        case False
        with leaving_other [OF True _ n] show ?thesis by simp
      qed
    next
      case False
      with v have "gone x (log @ closeCall toast) v" by simp
      then show ?thesis by (simp add: gone_step)
    qed
  next
    fix v
    assume "?P v" "nextTimer limit (pending v) = None"
    then show "?P (v\<lparr> clock := max (clock v) limit \<rparr>)"
      by (auto simp: stage_rest)
  qed
  moreover have "\<not> leaving x toast T log (runUntil limit u)"
  proof
    assume "leaving x toast T log (runUntil limit u)"
    then obtain h where
      "\<lparr> handle = h, due = T, callback = Purge x \<rparr> \<in> set (timersFor x (runUntil limit u))"
      by (auto simp: leaving_def)
    then have "\<lparr> handle = h, due = T, callback = Purge x \<rparr> \<in> set (pending (runUntil limit u))"
      by (simp add: timersFor_def)
    then have "limit < due \<lparr> handle = h, due = T, callback = Purge x \<rparr>"
      by (rule runUntil_rest)
    with l show False by simp
  qed
  ultimately show ?thesis by simp
qed

lemma nextHandle_fold_clearTimer [simp]:
  "nextHandle (fold (\<lambda>t. clearTimer (toast_id t)) ts s) = nextHandle s"
  by (induction ts arbitrary: s) simp_all

lemma insertToast_nextHandle [simp]: "nextHandle (insertToast cfg toast s) = nextHandle s"
  by (simp add: insertToast_def Let_def)

lemma set_pending_insertToast: "set (pending (insertToast cfg toast s)) \<subseteq> set (pending s)"
  using set_pending_fold_clearTimer [of _ s] by (auto simp: insertToast_def Let_def)

lemma toastsOf_insertToast_fresh:
  assumes m: "1 \<le> maxToasts cfg" and f: "toast_id toast \<notin> set (ids s)"
  shows "toastsOf (toast_id toast) (insertToast cfg toast s) = [toast]"
proof -
  let ?x = "toast_id toast"
  let ?rest = "filter (\<lambda>t. position t = position toast) (toasts s)"
  let ?others = "filter (\<lambda>t. position t \<noteq> position toast) (toasts s)"
  have none: "filter (\<lambda>t. toast_id t = ?x) ts = []" if sub: "set ts \<subseteq> set (toasts s)" for ts
  proof -
    have "toast_id t \<noteq> ?x" if "t \<in> set ts" for t
    proof
      assume e: "toast_id t = ?x"
      from that sub have "t \<in> set (toasts s)" by blast
      then have "toast_id t \<in> set (ids s)" by (simp add: ids_def)
      with e f show False by simp
    qed
    then show ?thesis by (simp add: filter_empty_conv)
  qed
  have k: "0 < sliceIndex (maxToasts cfg) (length (toast # ?rest))"
    using m by (simp add: sliceIndex_def)
  then obtain j where j: "sliceIndex (maxToasts cfg) (length (toast # ?rest)) = Suc j"
    by (auto simp: gr0_conv_Suc)
  have "set (take j ?rest) \<subseteq> set (toasts s)"
    by (auto dest!: in_set_takeD)
  then have a: "filter (\<lambda>t. toast_id t = ?x) (take j ?rest) = []" by (rule none)
  have b: "filter (\<lambda>t. toast_id t = ?x) ?rest = []" by (rule none) auto
  have c: "filter (\<lambda>t. toast_id t = ?x) ?others = []" by (rule none) auto
  show ?thesis
    unfolding toastsOf_def toasts_insertToast Let_def
    using a b c j by simp
qed

lemma createToast_awaiting:
  fixes s cfg rnd msg options
  defines "toast \<equiv> newToast cfg rnd msg options (clock s)"
  assumes w: "wellFormed s" and p: "punctual s" and m: "1 \<le> maxToasts cfg"
    and d: "0 < duration toast" and f: "toast_id toast \<notin> set (ids s)"
    and n: "\<forall>t \<in> set (pending s). callback t \<noteq> Purge (toast_id toast)"
  shows "awaiting (toast_id toast) toast
           \<lparr> handle = nextHandle s, due = clock s + hostDelay (nat (duration toast)),
             callback = AutoDismiss (toast_id toast) \<rparr>
           (closedOf (toast_id toast) s) (snd (createToast cfg rnd msg options s))"
proof -
  let ?x = "toast_id toast"
  let ?s' = "insertToast cfg toast s"
  have s1: "snd (createToast cfg rnd msg options s) = setTimer ?x (duration toast) ?s'"
    using d by (simp add: createToast_unfold Let_def toast_def)
  have w': "wellFormed ?s'" by (rule wellFormed_insertToast [OF w])
  have "target t \<noteq> ?x" if t: "t \<in> set (pending (clearTimer ?x ?s'))" for t
  proof (cases "callback t")
    case (AutoDismiss i)
    have "tracked ?s'" using w' by (simp add: wellFormed_def)
    from no_expiry_after_clearTimer [OF this t] AutoDismiss show ?thesis by auto
  next
    case (Purge i)
    from t have "t \<in> set (pending s)"
      using set_pending_clearTimer [of ?x ?s'] set_pending_insertToast [of cfg toast s] by blast
    with n Purge show ?thesis by auto
  qed
  then have e: "timersFor ?x (clearTimer ?x ?s') = []"
    by (auto simp: timersFor_def filter_empty_conv)
  have tm: "timersFor ?x (setTimer ?x (duration toast) ?s') =
        [\<lparr> handle = nextHandle s, due = clock s + hostDelay (nat (duration toast)),
           callback = AutoDismiss ?x \<rparr>]"
    using e by (simp add: timersFor_def setTimer_positive [OF d])
  have ts: "toastsOf ?x (setTimer ?x (duration toast) ?s') = [toast]"
    using toastsOf_insertToast_fresh [OF m f] by (simp add: toastsOf_def)
  have lg: "closedOf ?x (setTimer ?x (duration toast) ?s') = closedOf ?x s"
    by (simp add: closedOf_def)
  show ?thesis
    unfolding s1 awaiting_def
    using wellFormed_setTimer [OF w'] punctual_setTimer [OF punctual_insertToast [OF p]] tm ts lg
    by simp
qed

section \<open>Runs that differ in timers without effect\<close>

lemma tkey_due: "tkey a = tkey b \<Longrightarrow> due a = due b"
  by (simp add: tkey_def)

lemma tkey_callback: "tkey a = tkey b \<Longrightarrow> callback a = callback b"
  by (simp add: tkey_def)

lemma nextTimer_filter:
  assumes n: "nextTimer limit ts = Some t" and v: "V t"
  shows "nextTimer limit (filter V ts) = Some t"
proof -
  from nextTimer_split [OF n] obtain as bs where
    s: "ts = as @ t # bs" "due t \<le> limit" "\<forall>a \<in> set as. due t < due a"
       "\<forall>b \<in> set bs. due t \<le> due b"
    by blast
  have "filter V ts = filter V as @ t # filter V bs" using s(1) v by simp
  moreover have "nextTimer limit (filter V as @ t # filter V bs) = Some t"
    by (rule nextTimer_splitI) (use s in auto)
  ultimately show ?thesis by simp
qed

lemma nextTimer_filter_None:
  "nextTimer limit ts = None \<Longrightarrow> nextTimer limit (filter V ts) = None"
  by (simp add: nextTimer_None_iff)

lemma nextTimer_keys_None:
  assumes k: "map tkey xs = map tkey ys" and n: "nextTimer limit xs = None"
  shows "nextTimer limit ys = None"
proof -
  have "limit < due y" if "y \<in> set ys" for y
  proof -
    from that have "tkey y \<in> set (map tkey xs)" unfolding k by simp
    then obtain x where x: "x \<in> set xs" "tkey x = tkey y" by auto
    from x(2) have "due x = due y" by (rule tkey_due)
    with n x(1) show ?thesis by (auto simp: nextTimer_None_iff)
  qed
  then show ?thesis by (simp add: nextTimer_None_iff)
qed

lemma nextTimer_keys:
  assumes k: "map tkey xs = map tkey ys" and n: "nextTimer limit xs = Some a"
  shows "\<exists>b. nextTimer limit ys = Some b \<and> tkey b = tkey a"
proof -
  from nextTimer_split [OF n] obtain as bs where
    s: "xs = as @ a # bs" "due a \<le> limit" "\<forall>x \<in> set as. due a < due x"
       "\<forall>x \<in> set bs. due a \<le> due x"
    by blast
  from k s(1) have "map tkey ys = map tkey as @ tkey a # map tkey bs" by simp
  then obtain as' b bs' where
    y: "ys = as' @ b # bs'" "map tkey as' = map tkey as" "tkey b = tkey a"
       "map tkey bs' = map tkey bs"
    by (auto simp: map_eq_append_conv map_eq_Cons_conv)
  have d: "due b = due a" using y(3) by (rule tkey_due)
  have "due b < due x" if "x \<in> set as'" for x
  proof -
    from that have "tkey x \<in> set (map tkey as)" unfolding y(2) [symmetric] by simp
    then obtain z where z: "z \<in> set as" "tkey z = tkey x" by auto
    from z(2) have "due z = due x" by (rule tkey_due)
    with s(3) d z(1) show ?thesis by auto
  qed
  moreover have "due b \<le> due x" if "x \<in> set bs'" for x
  proof -
    from that have "tkey x \<in> set (map tkey bs)" unfolding y(4) [symmetric] by simp
    then obtain z where z: "z \<in> set bs" "tkey z = tkey x" by auto
    from z(2) have "due z = due x" by (rule tkey_due)
    with s(4) d z(1) show ?thesis by auto
  qed
  ultimately have "nextTimer limit (as' @ b # bs') = Some b"
    using s(2) d by (intro nextTimer_splitI) auto
  with y(1,3) show ?thesis by simp
qed

lemma keys_remove1:
  assumes n: "nextTimer limit ts = Some t" and v: "V t"
  shows "map tkey (filter V (remove1 t ts)) = remove1 (tkey t) (map tkey (filter V ts))"
proof -
  from nextTimer_remove1 [OF n] obtain as bs where
    s: "ts = as @ t # bs" "remove1 t ts = as @ bs" "\<forall>a \<in> set as. due t < due a"
    by blast
  have "tkey t \<notin> set (map tkey (filter V as))"
  proof
    assume "tkey t \<in> set (map tkey (filter V as))"
    then obtain a where a: "a \<in> set as" "tkey a = tkey t" by auto
    from a(2) have "due a = due t" by (rule tkey_due)
    with s(3) a(1) show False by auto
  qed
  then have "remove1 (tkey t) (map tkey (filter V as) @ tkey t # map tkey (filter V bs)) =
             map tkey (filter V as) @ map tkey (filter V bs)"
    by (simp add: remove1_append)
  then show ?thesis using s(1,2) v by simp
qed

lemma keys_cancel:
  assumes ow: "\<forall>q \<in> set qs. isPurge q \<longrightarrow> handle q \<noteq> h"
  shows "map tkey (filter V (filter (\<lambda>q. handle q \<noteq> h) qs)) =
         filter (\<lambda>k. snd (snd k) \<noteq> Some h) (map tkey (filter V qs))"
  using ow by (induction qs) (auto simp: tkey_def split: TimerCallback.splits)

lemma keys_fire:
  assumes w: "wellFormed u" and p: "punctual u"
    and n: "nextTimer limit (pending u) = Some t" and v: "V t"
    and new: "\<And>i. callback t = AutoDismiss i \<Longrightarrow>
                V \<lparr> handle = nextHandle u, due = due t + 300, callback = Purge i \<rparr>"
  shows "map tkey (filter V (pending (fire t u))) = keyStep (tkey t) (map tkey (filter V (pending u)))"
proof -
  from n have m: "t \<in> set (pending u)" by (simp add: nextTimer_in)
  let ?u1 = "u\<lparr> pending := remove1 t (pending u), clock := max (clock u) (due t) \<rparr>"
  have r: "map tkey (filter V (pending ?u1)) = remove1 (tkey t) (map tkey (filter V (pending u)))"
    using keys_remove1 [of limit "pending u" t V, OF n v] by simp
  show ?thesis
  proof (cases "callback t")
    case (Purge i)
    then show ?thesis using r by (simp add: fire_def pending_purge tkey_def)
  next
    case (AutoDismiss i)
    from w m AutoDismiss have reg: "map_of (timersRef u) i = Some (handle t)"
      by (simp add: wellFormed_def tracked_def)
    from w have ow: "owned u" by (simp add: wellFormed_def)
    have np: "\<forall>q \<in> set (remove1 t (pending u)). isPurge q \<longrightarrow> handle q \<noteq> handle t"
    proof (intro ballI impI)
      fix q assume q: "q \<in> set (remove1 t (pending u))" and pq: "isPurge q"
      from q have "q \<in> set (pending u)" by (rule in_remove1D)
      show "handle q \<noteq> handle t"
      proof
        assume "handle q = handle t"
        with ow \<open>q \<in> set (pending u)\<close> reg have "callback q = AutoDismiss i"
          by (auto simp: owned_def)
        with pq show False by simp
      qed
    qed
    have k: "clock ?u1 = due t" using punctual_fire(2) [OF p n] by simp
    have "pending (fire t u) =
          filter (\<lambda>q. handle q \<noteq> handle t) (remove1 t (pending u)) @
            [\<lparr> handle = nextHandle u, due = due t + 300, callback = Purge i \<rparr>]"
      using AutoDismiss reg k by (simp add: fire_def pending_dismiss pending_clearTimer)
    then have "map tkey (filter V (pending (fire t u))) =
          filter (\<lambda>k. snd (snd k) \<noteq> Some (handle t))
            (map tkey (filter V (remove1 t (pending u)))) @ [(due t + 300, Purge i, None)]"
      using new [OF AutoDismiss] keys_cancel [OF np, of V] by (simp add: tkey_def)
    then show ?thesis using r AutoDismiss by (simp add: tkey_def)
  qed
qed

text \<open>
  Two runs of the event loop, the first from a state with timers that the second does not
  have (those without \<open>V\<close>): when running such a timer leaves the relation \<open>I\<close> between
  the states intact, and so does running two timers with the same key, one in each
  state, then what \<open>I\<close> says the two states share (\<open>f\<close>) the two runs share at their end.
\<close>

lemma runUntil_simulation:
  assumes i: "I u' u"
    and obs: "\<And>u' u. I u' u \<Longrightarrow>
                f u' = f u \<and> map tkey (filter V (pending u')) = map tkey (pending u)"
    and clk: "\<And>u c. f (u\<lparr> clock := c \<rparr>) = f u"
    and hid: "\<And>u' u t. I u' u \<Longrightarrow> nextTimer limit (pending u') = Some t \<Longrightarrow> \<not> V t \<Longrightarrow>
                I (fire t u') u"
    and mat: "\<And>u' u t' t. I u' u \<Longrightarrow> nextTimer limit (pending u') = Some t' \<Longrightarrow> V t' \<Longrightarrow>
                nextTimer limit (pending u) = Some t \<Longrightarrow> tkey t = tkey t' \<Longrightarrow>
                I (fire t' u') (fire t u)"
  shows "f (runUntil limit u') = f (runUntil limit u)"
  using i obs hid mat
proof (induction limit u' arbitrary: u rule: runUntil.induct)
  case (1 limit u')
  note obs = "1.prems"(2) and hid = "1.prems"(3) and mat = "1.prems"(4)
  from obs [OF "1.prems"(1)] have o: "f u' = f u"
    "map tkey (filter V (pending u')) = map tkey (pending u)"
    by simp_all
  show ?case
  proof (cases "nextTimer limit (pending u')")
    case None
    then have "nextTimer limit (filter V (pending u')) = None" by (rule nextTimer_filter_None)
    with o(2) have "nextTimer limit (pending u) = None" by (rule nextTimer_keys_None)
    with None o(1) show ?thesis by (simp add: runUntil_None clk)
  next
    case (Some t')
    show ?thesis
    proof (cases "V t'")
      case False
      have "f (runUntil limit (fire t' u')) = f (runUntil limit u)"
        by (rule "1.IH" [OF Some hid [OF "1.prems"(1) Some False] obs hid mat])
      then show ?thesis by (simp add: runUntil_Some [OF Some])
    next
      case True
      from nextTimer_filter [OF Some, of V] True
      have "nextTimer limit (filter V (pending u')) = Some t'" by simp
      from nextTimer_keys [OF o(2) this] obtain t where
        t: "nextTimer limit (pending u) = Some t" "tkey t = tkey t'"
        by blast
      have "f (runUntil limit (fire t' u')) = f (runUntil limit (fire t u))"
        by (rule "1.IH" [OF Some mat [OF "1.prems"(1) Some True t] obs hid mat])
      then show ?thesis by (simp add: runUntil_Some [OF Some] runUntil_Some [OF t(1)])
    qed
  qed
qed

section \<open>Timers for an id that no toast has\<close>

lemma absent_markRemoving: "j \<notin> set (map toast_id ts) \<Longrightarrow> map (markRemoving j) ts = ts"
  by (induction ts) (auto simp: markRemoving_def)

lemma absent_filter: "j \<notin> set (map toast_id ts) \<Longrightarrow> filter (\<lambda>t. toast_id t \<noteq> j) ts = ts"
  by (induction ts) auto

lemma absent_find: "j \<notin> set (map toast_id ts) \<Longrightarrow> find (\<lambda>t. toast_id t = j) ts = None"
  by (induction ts) auto

lemma fire_absent:
  assumes "j \<notin> set (ids u)" and "target t = j"
  shows "toasts (fire t u) = toasts u" and "closeLog (fire t u) = closeLog u"
  using assms
  by (cases "callback t";
      simp add: ids_def toasts_fire closeLog_fire closeLog_purge absent_markRemoving
        absent_filter absent_find)+

lemma others_clearTimer:
  assumes w: "wellFormed u"
  shows "filter (\<lambda>t. target t \<noteq> j) (pending (clearTimer j u)) =
         filter (\<lambda>t. target t \<noteq> j) (pending u)"
proof (cases "map_of (timersRef u) j")
  case None
  then show ?thesis by (simp add: pending_clearTimer)
next
  case (Some h)
  from w have ow: "owned u" by (simp add: wellFormed_def)
  have "handle t \<noteq> h" if "t \<in> set (pending u)" "target t \<noteq> j" for t
  proof
    assume "handle t = h"
    with ow that(1) Some have "callback t = AutoDismiss j" by (auto simp: owned_def)
    with that(2) show False by simp
  qed
  then have "filter (\<lambda>t. target t \<noteq> j) (filter (\<lambda>t. handle t \<noteq> h) (pending u)) =
             filter (\<lambda>t. target t \<noteq> j) (pending u)"
    by (auto intro!: filter_cong)
  with Some show ?thesis by (simp add: pending_clearTimer)
qed

lemma others_fire:
  assumes w: "wellFormed u" and o: "target t = j"
  shows "filter (\<lambda>t. target t \<noteq> j) (pending (fire t u)) =
         filter (\<lambda>t. target t \<noteq> j) (pending u)"
proof -
  let ?u1 = "u\<lparr> pending := remove1 t (pending u), clock := max (clock u) (due t) \<rparr>"
  have w1: "wellFormed ?u1"
    using wellFormed_pending_subset(2,3) [OF w] wellFormed_pending_subset(3) by metis
  have r: "filter (\<lambda>t. target t \<noteq> j) (pending ?u1) = filter (\<lambda>t. target t \<noteq> j) (pending u)"
    using o by (simp add: filter_remove1 remove1_idem)
  show ?thesis
  proof (cases "callback t")
    case (AutoDismiss i)
    with o have "i = j" by simp
    then show ?thesis
      using AutoDismiss r others_clearTimer [OF w1, of j]
      by (simp add: fire_def pending_dismiss)
  next
    case (Purge i)
    then show ?thesis using r by (simp add: fire_def pending_purge)
  qed
qed

lemma aside_hidden:
  assumes a: "aside j u' u" and n: "nextTimer limit (pending u') = Some t"
    and h: "\<not> target t \<noteq> j"
  shows "aside j (fire t u') u"
proof -
  from h have tj: "target t = j" by simp
  from a have w: "wellFormed u'" and p: "punctual u'" and nj: "j \<notin> set (ids u')"
    by (simp_all add: aside_def)
  have "ids (fire t u') = ids u'"
    using fire_absent(1) [OF nj tj] by (simp add: ids_def)
  then show ?thesis
    using a wellFormed_fire [OF w, of t] punctual_fire(1) [OF p n]
      fire_absent [OF nj tj] others_fire [OF w tj]
    by (simp add: aside_def)
qed

lemma set_pending_fire:
  "set (pending (fire t u)) \<subseteq>
     set (pending u) \<union>
     (case callback t of
        AutoDismiss i \<Rightarrow>
          {\<lparr> handle = nextHandle u, due = max (clock u) (due t) + 300, callback = Purge i \<rparr>}
      | Purge i \<Rightarrow> {})"
proof (cases "callback t")
  case (AutoDismiss i)
  let ?u1 = "u\<lparr> pending := remove1 t (pending u), clock := max (clock u) (due t) \<rparr>"
  have "set (pending (clearTimer i ?u1)) \<subseteq> set (pending u)"
    using set_pending_clearTimer [of i ?u1] set_remove1_subset [of t "pending u"] by auto
  then show ?thesis using AutoDismiss by (auto simp: fire_def pending_dismiss)
next
  case (Purge i)
  then show ?thesis
    using set_remove1_subset [of t "pending u"] by (auto simp: fire_def pending_purge)
qed

lemma ids_fire_subset: "set (ids (fire t u)) \<subseteq> set (ids u)"
  by (cases "callback t") (auto simp: ids_def toasts_fire)

lemma fire_same_callback:
  assumes "callback t = callback t'" and "toasts u = toasts u'" and "closeLog u = closeLog u'"
  shows "toasts (fire t u) = toasts (fire t' u')" and "closeLog (fire t u) = closeLog (fire t' u')"
  using assms by (cases "callback t'"; simp add: toasts_fire closeLog_fire closeLog_purge)+

lemma aside_matched:
  assumes a: "aside j u' u" and n': "nextTimer limit (pending u') = Some t'"
    and v: "target t' \<noteq> j" and n: "nextTimer limit (pending u) = Some t"
    and k: "tkey t = tkey t'"
  shows "aside j (fire t' u') (fire t u)"
proof -
  from a have w': "wellFormed u'" and w: "wellFormed u" and p': "punctual u'" and p: "punctual u"
    and ts: "toasts u' = toasts u" and lg: "closeLog u' = closeLog u"
    and nj: "j \<notin> set (ids u')" and vis: "\<forall>t \<in> set (pending u). target t \<noteq> j"
    and keys: "map tkey (filter (\<lambda>t. target t \<noteq> j) (pending u')) = map tkey (pending u)"
    by (simp_all add: aside_def)
  from k have cb: "callback t = callback t'" by (rule tkey_callback)
  with v have vt: "target t \<noteq> j" by simp
  have all: "filter (\<lambda>t. target t \<noteq> j) (pending u) = pending u"
    using vis by (simp add: filter_id_conv)
  have vis': "\<forall>q \<in> set (pending (fire t u)). target q \<noteq> j"
    using set_pending_fire [of t u] vis vt by (auto split: TimerCallback.splits)
  then have all': "filter (\<lambda>t. target t \<noteq> j) (pending (fire t u)) = pending (fire t u)"
    by (simp add: filter_id_conv)
  have "map tkey (filter (\<lambda>t. target t \<noteq> j) (pending (fire t' u'))) =
        keyStep (tkey t') (map tkey (filter (\<lambda>t. target t \<noteq> j) (pending u')))"
    by (rule keys_fire [where V = "\<lambda>t. target t \<noteq> j", OF w' p' n' v]) (use v in simp)
  moreover have "map tkey (filter (\<lambda>t. target t \<noteq> j) (pending (fire t u))) =
        keyStep (tkey t) (map tkey (filter (\<lambda>t. target t \<noteq> j) (pending u)))"
    by (rule keys_fire [where V = "\<lambda>t. target t \<noteq> j", OF w p n vt]) (use vt in simp)
  ultimately have keys': "map tkey (filter (\<lambda>t. target t \<noteq> j) (pending (fire t' u'))) =
        map tkey (pending (fire t u))"
    using keys k all all' by simp
  have "j \<notin> set (ids (fire t' u'))" using ids_fire_subset [of t' u'] nj by blast
  then show ?thesis
    using wellFormed_fire [OF w', of t'] wellFormed_fire [OF w, of t]
      punctual_fire(1) [OF p' n'] punctual_fire(1) [OF p n]
      fire_same_callback [OF cb [symmetric] ts lg] vis' keys'
    by (simp add: aside_def)
qed

lemma aside_runUntil:
  assumes "aside j u' u"
  shows "toasts (runUntil limit u') = toasts (runUntil limit u) \<and>
         closeLog (runUntil limit u') = closeLog (runUntil limit u)"
proof -
  have "(\<lambda>s. (toasts s, closeLog s)) (runUntil limit u') =
        (\<lambda>s. (toasts s, closeLog s)) (runUntil limit u)"
  proof (rule runUntil_simulation
      [where I = "aside j" and V = "\<lambda>t. target t \<noteq> j"])
    show "aside j u' u" by (rule assms)
  next
    fix u' u assume "aside j u' u"
    then show "(toasts u', closeLog u') = (toasts u, closeLog u) \<and>
       map tkey (filter (\<lambda>t. target t \<noteq> j) (pending u')) = map tkey (pending u)"
      by (simp add: aside_def)
  next
    fix u :: ProviderState and c
    show "(toasts (u\<lparr> clock := c \<rparr>), closeLog (u\<lparr> clock := c \<rparr>)) = (toasts u, closeLog u)"
      by simp
  next
    fix u' u t
    assume "aside j u' u" "nextTimer limit (pending u') = Some t" "\<not> target t \<noteq> j"
    then show "aside j (fire t u') u" by (rule aside_hidden)
  next
    fix u' u t' t
    assume "aside j u' u" "nextTimer limit (pending u') = Some t'" "target t' \<noteq> j"
      "nextTimer limit (pending u) = Some t" "tkey t = tkey t'"
    then show "aside j (fire t' u') (fire t u)" by (rule aside_matched)
  qed
  then show ?thesis by simp
qed

lemma withoutTimersFor_fields [simp]:
  "toasts (withoutTimersFor j u) = toasts u"
  "closeLog (withoutTimersFor j u) = closeLog u"
  "clock (withoutTimersFor j u) = clock u"
  "pending (withoutTimersFor j u) = filter (\<lambda>t. target t \<noteq> j) (pending u)"
  by (simp_all add: withoutTimersFor_def)

lemma aside_core:
  assumes w: "wellFormed u" and p: "punctual u" and nj: "j \<notin> set (ids u)"
  shows "aside j u (withoutTimersFor j u)"
proof -
  have "wellFormed (withoutTimersFor j u)"
    unfolding withoutTimersFor_def by (rule wellFormed_pending_subset(1) [OF w])
  moreover have "punctual (withoutTimersFor j u)"
    by (rule punctual_shrink [OF p]) simp_all
  ultimately show ?thesis
    using w p nj by (simp add: aside_def)
qed

lemma aside_dismiss:
  assumes w: "wellFormed u" and p: "punctual u" and nj: "j \<notin> set (ids u)"
  shows "aside j (dismiss j u) (withoutTimersFor j u)"
proof -
  from aside_core [OF w p nj] have c: "aside j u (withoutTimersFor j u)" .
  have t: "toasts (dismiss j u) = toasts u"
    using nj by (simp add: ids_def absent_markRemoving)
  have k: "filter (\<lambda>t. target t \<noteq> j) (pending (dismiss j u)) =
           filter (\<lambda>t. target t \<noteq> j) (pending u)"
    using others_clearTimer [OF w, of j] by (simp add: pending_dismiss)
  show ?thesis
    using c t k wellFormed_dismiss [OF w, of j] punctual_dismiss [OF p, of j]
    by (simp add: aside_def ids_def)
qed

lemma aside_setTimer:
  assumes w: "wellFormed u" and p: "punctual u" and nj: "j \<notin> set (ids u)"
  shows "aside j (setTimer j d u) (withoutTimersFor j u)"
proof (cases "0 < d")
  case False
  then show ?thesis using aside_core [OF w p nj] by (simp add: setTimer_nonpositive)
next
  case True
  from aside_core [OF w p nj] have c: "aside j u (withoutTimersFor j u)" .
  have k: "filter (\<lambda>t. target t \<noteq> j) (pending (setTimer j d u)) =
           filter (\<lambda>t. target t \<noteq> j) (pending u)"
    using others_clearTimer [OF w, of j] by (simp add: setTimer_positive [OF True])
  have l: "closeLog (setTimer j d u) = closeLog u" by simp
  show ?thesis
    using c k l wellFormed_setTimer [OF w, of j d] punctual_setTimer [OF p, of j d]
    by (simp add: aside_def ids_def)
qed

lemma update_absent:
  assumes "j \<notin> set (ids u)"
  shows "update j msg options u =
           (case opt_duration options of None \<Rightarrow> u | Some d \<Rightarrow> setTimer j d u)"
proof -
  have "map (\<lambda>t. if toast_id t = j then mergeOptions msg options t else t) (toasts u) = toasts u"
    using assms unfolding ids_def by (induction "toasts u") (auto intro!: map_idI)
  then show ?thesis by (simp add: update_def Let_def)
qed

lemma aside_update:
  assumes w: "wellFormed u" and p: "punctual u" and nj: "j \<notin> set (ids u)"
  shows "aside j (update j msg options u) (withoutTimersFor j u)"
  using aside_core [OF w p nj] aside_setTimer [OF w p nj]
  by (simp add: update_absent [OF nj] split: option.splits)

section \<open>Handles in the order of scheduling\<close>

lemma sorted_wrt_remove1: "sorted_wrt R xs \<Longrightarrow> sorted_wrt R (remove1 x xs)"
proof (induction xs)
  case Nil
  then show ?case by simp
next
  case (Cons a xs)
  then show ?case by (auto dest: in_remove1D)
qed

lemma ordered_filter:
  "ordered s \<Longrightarrow> nextHandle u = nextHandle s \<Longrightarrow> pending u = filter P (pending s) \<Longrightarrow>
   ordered u"
  by (auto simp: ordered_def sorted_wrt_filter)

lemma ordered_remove1:
  "ordered s \<Longrightarrow> nextHandle u = nextHandle s \<Longrightarrow> pending u = remove1 t (pending s) \<Longrightarrow>
   ordered u"
  by (auto simp: ordered_def sorted_wrt_remove1 dest: in_remove1D)

lemma ordered_same:
  "ordered s \<Longrightarrow> nextHandle u = nextHandle s \<Longrightarrow> pending u = pending s \<Longrightarrow> ordered u"
  by (simp add: ordered_def)

lemma ordered_schedule:
  assumes "ordered s"
  shows "ordered (snd (setTimeout cb delay s))"
  using assms by (auto simp: ordered_def setTimeout_def sorted_wrt_append less_Suc_eq)

lemma ordered_clearTimer: "ordered s \<Longrightarrow> ordered (clearTimer i s)"
proof (cases "map_of (timersRef s) i")
  case None
  assume "ordered s"
  then show ?thesis by (rule ordered_same) (simp_all add: pending_clearTimer None)
next
  case (Some h)
  assume "ordered s"
  then show ?thesis by (rule ordered_filter) (simp_all add: pending_clearTimer Some)
qed

lemma setTimer_schedule:
  "0 < d \<Longrightarrow>
   setTimer i d s =
     (let s2 = snd (setTimeout (AutoDismiss i) (nat d) (clearTimer i s))
      in s2\<lparr> timersRef := AList.update i (nextHandle s) (timersRef s2) \<rparr>)"
  by (simp add: setTimer_def setTimeout_def Let_def)

lemma ordered_timersRef: "ordered (s\<lparr> timersRef := r \<rparr>) = ordered s"
  by (simp add: ordered_def)

lemma ordered_setTimer: "ordered s \<Longrightarrow> ordered (setTimer i d s)"
proof (cases "0 < d")
  case True
  assume "ordered s"
  then have "ordered (snd (setTimeout (AutoDismiss i) (nat d) (clearTimer i s)))"
    by (intro ordered_schedule ordered_clearTimer)
  then show ?thesis
    by (simp add: setTimer_schedule [OF True] Let_def ordered_timersRef)
next
  case False
  assume "ordered s"
  with False show ?thesis by (simp add: setTimer_nonpositive)
qed

lemma ordered_toasts: "ordered (s\<lparr> toasts := ts \<rparr>) = ordered s"
  by (simp add: ordered_def)

lemma ordered_dismiss: "ordered s \<Longrightarrow> ordered (dismiss i s)"
  unfolding dismiss_def Let_def
  by (intro ordered_schedule) (simp add: ordered_toasts ordered_clearTimer)

lemma ordered_purge: "ordered s \<Longrightarrow> ordered (purge i s)"
  by (erule ordered_same) (simp_all add: pending_purge)

lemma ordered_fire: "ordered s \<Longrightarrow> ordered (fire t s)"
proof -
  assume o: "ordered s"
  have "ordered (s\<lparr> pending := remove1 t (pending s), clock := max (clock s) (due t) \<rparr>)"
    by (rule ordered_remove1 [OF o]) simp_all
  then show ?thesis
    by (cases "callback t") (simp_all add: fire_def ordered_dismiss ordered_purge)
qed

lemma ordered_runUntil: "ordered s \<Longrightarrow> ordered (runUntil limit s)"
proof (rule runUntil_invariant [where P = ordered])
  fix u t
  assume "ordered u"
  then show "ordered (fire t u)" by (rule ordered_fire)
next
  fix u
  assume "ordered u"
  then show "ordered (u\<lparr> clock := max (clock u) limit \<rparr>)"
    by (rule ordered_same) simp_all
qed

lemma ordered_fold_clearTimer:
  "ordered s \<Longrightarrow> ordered (fold (\<lambda>t. clearTimer (toast_id t)) ts s)"
  by (induction ts arbitrary: s) (simp_all add: ordered_clearTimer)

lemma ordered_insertToast: "ordered s \<Longrightarrow> ordered (insertToast cfg toast s)"
  by (simp add: insertToast_def Let_def ordered_toasts ordered_fold_clearTimer)

lemma ordered_createToast: "ordered s \<Longrightarrow> ordered (snd (createToast cfg rnd msg options s))"
  by (simp add: createToast_unfold Let_def ordered_insertToast ordered_setTimer)

lemma ordered_createToastDeferred:
  "ordered s \<Longrightarrow> ordered (snd (createToastDeferred cfg rnd msg options s))"
  by (simp add: createToastDeferred_def Let_def ordered_insertToast ordered_setTimer)

lemma ordered_update: "ordered s \<Longrightarrow> ordered (update i msg options s)"
  by (simp add: update_def Let_def ordered_setTimer ordered_toasts split: option.splits)

lemma ordered_dismissAll: "ordered s \<Longrightarrow> ordered (dismissAll s)"
  by (erule ordered_filter) (simp_all add: pending_dismissAll)

lemma ordered_exec: "ordered s \<Longrightarrow> ordered (exec cfg c s)"
  by (cases c)
     (simp_all add: ordered_createToast ordered_createToastDeferred ordered_update
        ordered_dismiss ordered_dismissAll
        ordered_runUntil advanceTimersByTime_def)

lemma ordered_run: "ordered s \<Longrightarrow> ordered (run cfg cs s)"
  unfolding run_def by (induction cs arbitrary: s) (simp_all add: ordered_exec)

lemma ordered_reachable: "ordered (run cfg cs initialState)"
  by (rule ordered_run) (simp add: ordered_def initialState_def)

section \<open>A second purge timer behind the first\<close>

lemma timersRef_fire:
  "timersRef (fire t u) =
     (case callback t of
        AutoDismiss i \<Rightarrow> AList.delete i (timersRef u)
      | Purge i \<Rightarrow> timersRef u)"
  by (simp add: fire_def Let_def split: TimerCallback.splits)

lemma nextHandle_fire: "nextHandle u \<le> nextHandle (fire t u)"
  by (simp add: fire_def Let_def split: TimerCallback.splits)

lemma purge_survives_fire:
  assumes w: "wellFormed u" and p: "p \<in> set (pending u)" and c: "isPurge p" and n: "p \<noteq> t"
  shows "p \<in> set (pending (fire t u))"
proof -
  from p n have r: "p \<in> set (remove1 t (pending u))" by simp
  show ?thesis
  proof (cases "callback t")
    case (Purge k)
    with r show ?thesis by (simp add: fire_def pending_purge)
  next
    case (AutoDismiss k)
    let ?u1 = "u\<lparr> pending := remove1 t (pending u), clock := max (clock u) (due t) \<rparr>"
    have w1: "wellFormed ?u1"
      using wellFormed_pending_subset(2,3) [OF w] wellFormed_pending_subset(3) by metis
    have "p \<in> set (pending (clearTimer k ?u1))"
    proof (cases "map_of (timersRef ?u1) k")
      case None
      with r show ?thesis by (simp add: pending_clearTimer)
    next
      case (Some h)
      have "handle p \<noteq> h"
      proof
        assume "handle p = h"
        with w1 r Some have "callback p = AutoDismiss k"
          by (auto simp: wellFormed_def owned_def)
        with c show False by simp
      qed
      with r Some show ?thesis by (simp add: pending_clearTimer)
    qed
    with AutoDismiss show ?thesis by (simp add: fire_def pending_dismiss)
  qed
qed

lemma twin_overtaken:
  assumes o: "ordered u" and n: "nextTimer limit (pending u) = Some t"
    and p: "p \<in> set (pending u)" and d: "due p \<le> due t"
  shows "handle t \<le> handle p"
proof -
  from nextTimer_split [OF n] obtain as bs where
    s: "pending u = as @ t # bs" "\<forall>a \<in> set as. due t < due a"
    by blast
  from p s(1) have "p \<in> set as \<or> p = t \<or> p \<in> set bs" by auto
  moreover have "p \<notin> set as" using s(2) d by auto
  moreover have "handle t < handle p" if "p \<in> set bs"
    using o that unfolding ordered_def s(1) by (auto simp: sorted_wrt_append)
  ultimately show ?thesis by auto
qed

lemma twin_hidden:
  assumes a: "twin e i u' u" and n: "nextTimer limit (pending u') = Some t"
    and h: "\<not> handle t \<noteq> e"
  shows "twin e i (fire t u') u"
proof -
  from h have he: "handle t = e" by simp
  from n have m: "t \<in> set (pending u')" by (simp add: nextTimer_in)
  from a have w: "wellFormed u'" and p: "punctual u'" and o: "ordered u'"
    and ex: "\<forall>t \<in> set (pending u'). handle t = e \<longrightarrow>
        callback t = Purge i \<and>
        (i \<in> set (ids u') \<longrightarrow>
           (\<exists>p \<in> set (pending u'). callback p = Purge i \<and> due p \<le> due t \<and> handle p < e))"
    by (simp_all add: twin_def)
  from ex m he have cb: "callback t = Purge i" by simp
  have ni: "i \<notin> set (ids u')"
  proof
    assume "i \<in> set (ids u')"
    with ex m he obtain q where
      q: "q \<in> set (pending u')" "due q \<le> due t" "handle q < e"
      by blast
    from twin_overtaken [OF o n q(1,2)] q(3) he show False by simp
  qed
  have ti: "target t = i" using cb by simp
  have ts: "toasts (fire t u') = toasts u'" and lg: "closeLog (fire t u') = closeLog u'"
    by (rule fire_absent [OF ni ti])+
  have rf: "timersRef (fire t u') = timersRef u'" using cb by (simp add: timersRef_fire)
  have pd: "pending (fire t u') = remove1 t (pending u')"
    using cb by (simp add: fire_def pending_purge)
  have nh: "nextHandle (fire t u') = nextHandle u'"
    using cb by (simp add: fire_def)
  have keys: "filter (\<lambda>t. handle t \<noteq> e) (pending (fire t u')) =
              filter (\<lambda>t. handle t \<noteq> e) (pending u')"
    using he by (simp add: pd filter_remove1 remove1_idem)
  have ni': "i \<notin> set (ids (fire t u'))" using ni ts by (simp add: ids_def)
  have ex': "\<forall>q \<in> set (pending (fire t u')). handle q = e \<longrightarrow>
        callback q = Purge i \<and>
        (i \<in> set (ids (fire t u')) \<longrightarrow>
           (\<exists>p \<in> set (pending (fire t u')). callback p = Purge i \<and> due p \<le> due q \<and> handle p < e))"
    using ex ni' by (auto simp: pd dest!: in_remove1D)
  show ?thesis
    unfolding twin_def
    using a wellFormed_fire [OF w, of t] punctual_fire(1) [OF p n] ordered_fire [OF o, of t]
      ts lg rf nh keys ex'
    by (simp add: twin_def)
qed

lemma twin_matched:
  assumes a: "twin e i u' u" and n': "nextTimer limit (pending u') = Some t'"
    and v: "handle t' \<noteq> e" and n: "nextTimer limit (pending u) = Some t"
    and k: "tkey t = tkey t'"
  shows "twin e i (fire t' u') (fire t u)"
proof -
  from a have w': "wellFormed u'" and w: "wellFormed u" and p': "punctual u'" and p: "punctual u"
    and o: "ordered u'" and ts: "toasts u' = toasts u" and lg: "closeLog u' = closeLog u"
    and rf: "timersRef u' = timersRef u" and lt: "e < nextHandle u'"
    and keys: "map tkey (filter (\<lambda>t. handle t \<noteq> e) (pending u')) = map tkey (pending u)"
    and ex: "\<forall>t \<in> set (pending u'). handle t = e \<longrightarrow>
        callback t = Purge i \<and>
        (i \<in> set (ids u') \<longrightarrow>
           (\<exists>p \<in> set (pending u'). callback p = Purge i \<and> due p \<le> due t \<and> handle p < e))"
    by (simp_all add: twin_def)
  from k have cb: "callback t = callback t'" by (rule tkey_callback)
  have rf': "timersRef (fire t' u') = timersRef (fire t u)"
    by (simp only: timersRef_fire cb rf)
  have lt': "e < nextHandle (fire t' u')"
    using lt nextHandle_fire [of u' t'] by simp
  have "map tkey (filter (\<lambda>t. handle t \<noteq> e) (pending (fire t' u'))) =
        keyStep (tkey t') (map tkey (filter (\<lambda>t. handle t \<noteq> e) (pending u')))"
    by (rule keys_fire [where V = "\<lambda>t. handle t \<noteq> e", OF w' p' n' v]) (use lt in simp)
  moreover have "map tkey (filter (\<lambda>t. True) (pending (fire t u))) =
        keyStep (tkey t) (map tkey (filter (\<lambda>t. True) (pending u)))"
    by (rule keys_fire [where V = "\<lambda>t. True", OF w p n]) simp_all
  ultimately have keys': "map tkey (filter (\<lambda>t. handle t \<noteq> e) (pending (fire t' u'))) =
        map tkey (pending (fire t u))"
    using keys k by simp
  have ex': "callback q = Purge i \<and>
        (i \<in> set (ids (fire t' u')) \<longrightarrow>
           (\<exists>p \<in> set (pending (fire t' u')). callback p = Purge i \<and> due p \<le> due q \<and> handle p < e))"
    if q: "q \<in> set (pending (fire t' u'))" and qe: "handle q = e" for q
  proof -
    have q': "q \<in> set (pending u')"
      using set_pending_fire [of t' u'] q qe lt by (auto split: TimerCallback.splits)
    with ex qe have qc: "callback q = Purge i" by simp
    have "\<exists>p \<in> set (pending (fire t' u')). callback p = Purge i \<and> due p \<le> due q \<and> handle p < e"
      if here: "i \<in> set (ids (fire t' u'))"
    proof -
      from here have "i \<in> set (ids u')" using ids_fire_subset [of t' u'] by blast
      with ex q' qe obtain g where
        g: "g \<in> set (pending u')" "callback g = Purge i" "due g \<le> due q" "handle g < e"
        by blast
      have "g \<noteq> t'"
      proof
        assume "g = t'"
        with g(2) have "toasts (fire t' u') = filter (\<lambda>t. toast_id t \<noteq> i) (toasts u')"
          by (simp add: toasts_fire)
        then have "i \<notin> set (ids (fire t' u'))" by (auto simp: ids_def)
        with here show False by simp
      qed
      then have "g \<in> set (pending (fire t' u'))"
        using purge_survives_fire [OF w' g(1)] g(2) by simp
      with g show ?thesis by blast
    qed
    with qc show ?thesis by simp
  qed
  show ?thesis
    unfolding twin_def
    using wellFormed_fire [OF w', of t'] wellFormed_fire [OF w, of t]
      punctual_fire(1) [OF p' n'] punctual_fire(1) [OF p n] ordered_fire [OF o, of t']
      fire_same_callback [OF cb [symmetric] ts lg] rf' lt' keys' ex'
    by simp
qed

lemma twin_runUntil:
  assumes "twin e i u' u"
  shows "toasts (runUntil limit u') = toasts (runUntil limit u) \<and>
         closeLog (runUntil limit u') = closeLog (runUntil limit u) \<and>
         timersRef (runUntil limit u') = timersRef (runUntil limit u)"
proof -
  have "(\<lambda>s. (toasts s, closeLog s, timersRef s)) (runUntil limit u') =
        (\<lambda>s. (toasts s, closeLog s, timersRef s)) (runUntil limit u)"
  proof (rule runUntil_simulation
      [where I = "twin e i" and V = "\<lambda>t. handle t \<noteq> e"])
    show "twin e i u' u" by (rule assms)
  next
    fix u' u assume "twin e i u' u"
    then show "(toasts u', closeLog u', timersRef u') = (toasts u, closeLog u, timersRef u) \<and>
       map tkey (filter (\<lambda>t. handle t \<noteq> e) (pending u')) = map tkey (pending u)"
      by (simp add: twin_def)
  next
    fix u :: ProviderState and c
    show "(toasts (u\<lparr> clock := c \<rparr>), closeLog (u\<lparr> clock := c \<rparr>), timersRef (u\<lparr> clock := c \<rparr>)) =
          (toasts u, closeLog u, timersRef u)"
      by simp
  next
    fix u' u t
    assume "twin e i u' u" "nextTimer limit (pending u') = Some t" "\<not> handle t \<noteq> e"
    then show "twin e i (fire t u') u" by (rule twin_hidden)
  next
    fix u' u t' t
    assume "twin e i u' u" "nextTimer limit (pending u') = Some t'" "handle t' \<noteq> e"
      "nextTimer limit (pending u) = Some t" "tkey t = tkey t'"
    then show "twin e i (fire t' u') (fire t u)" by (rule twin_matched)
  qed
  then show ?thesis by simp
qed

lemma markRemoving_twice: "markRemoving i (markRemoving i t) = markRemoving i t"
  by (simp add: markRemoving_def)

lemma clearTimer_absent: "map_of (timersRef u) i = None \<Longrightarrow> clearTimer i u = u"
  by (simp add: clearTimer_def)

lemma twin_dismiss:
  assumes w: "wellFormed s" and p: "punctual s" and o: "ordered s"
  shows "twin (Suc (nextHandle s)) i (dismiss i (dismiss i s)) (dismiss i s)"
proof -
  let ?v = "dismiss i s"
  let ?e = "Suc (nextHandle s)"
  let ?p1 = "\<lparr> handle = nextHandle s, due = clock s + 300, callback = Purge i \<rparr>"
  let ?p2 = "\<lparr> handle = ?e, due = clock s + 300, callback = Purge i \<rparr>"
  have wv: "wellFormed ?v" by (rule wellFormed_dismiss [OF w])
  have pv: "punctual ?v" by (rule punctual_dismiss [OF p])
  have ov: "ordered ?v" by (rule ordered_dismiss [OF o])
  have "map_of (timersRef ?v) i = None" by (simp add: delete_conv')
  then have c: "clearTimer i ?v = ?v" by (rule clearTimer_absent)
  have pd: "pending (dismiss i ?v) = pending ?v @ [?p2]"
    by (simp add: pending_dismiss c)
  have p1: "?p1 \<in> set (pending ?v)" by (simp add: pending_dismiss)
  have below: "\<forall>t \<in> set (pending ?v). handle t < ?e"
    using ov by (simp add: ordered_def)
  then have "filter (\<lambda>t. handle t \<noteq> ?e) (pending ?v) = pending ?v"
    by (auto simp: filter_id_conv)
  then have keys: "map tkey (filter (\<lambda>t. handle t \<noteq> ?e) (pending (dismiss i ?v))) =
                   map tkey (pending ?v)"
    by (simp add: pd)
  have ex: "\<forall>t \<in> set (pending (dismiss i ?v)). handle t = ?e \<longrightarrow>
        callback t = Purge i \<and>
        (i \<in> set (ids (dismiss i ?v)) \<longrightarrow>
           (\<exists>p \<in> set (pending (dismiss i ?v)).
              callback p = Purge i \<and> due p \<le> due t \<and> handle p < ?e))"
  proof (intro ballI impI)
    fix t assume t: "t \<in> set (pending (dismiss i ?v))" and h: "handle t = ?e"
    from t h below have "t = ?p2" by (auto simp: pd)
    moreover have "?p1 \<in> set (pending (dismiss i ?v))" using p1 by (simp add: pd)
    ultimately show "callback t = Purge i \<and>
        (i \<in> set (ids (dismiss i ?v)) \<longrightarrow>
           (\<exists>p \<in> set (pending (dismiss i ?v)).
              callback p = Purge i \<and> due p \<le> due t \<and> handle p < ?e))"
      by (intro conjI impI bexI [of _ ?p1]) simp_all
  qed
  show ?thesis
    unfolding twin_def
    using wellFormed_dismiss [OF wv, of i] wv punctual_dismiss [OF pv, of i] pv
      ordered_dismiss [OF ov, of i] keys ex
    by (simp add: markRemoving_twice delete_idem)
qed

section \<open>The two schedules of createToast\<close>

text \<open>
  For a toast with an id that no toast of the list has, and a limit of at least 1, it makes
  no difference whether the updater of \<^verbatim>\<open>createToast\<close> runs before \<^verbatim>\<open>setTimer\<close> or
  after it: the timers that the updater clears are those of other ids.
\<close>

lemma setTimer_toasts_update:
  "setTimer x d (u\<lparr> toasts := ts \<rparr>) = (setTimer x d u)\<lparr> toasts := ts \<rparr>"
  by (simp add: setTimer_def clearTimer_def clearTimeout_def setTimeout_def Let_def
        split: option.splits)

lemma clearTimer_setTimer_commute:
  assumes w: "wellFormed s" and n: "j \<noteq> x"
  shows "clearTimer j (setTimer x d s) = setTimer x d (clearTimer j s)"
proof (cases "0 < d")
  case False
  then show ?thesis by (simp add: setTimer_nonpositive)
next
  case True
  show ?thesis
  proof (cases "map_of (timersRef s) j")
    case None
    then have "map_of (timersRef (setTimer x d s)) j = None"
      using n by (simp add: setTimer_positive [OF True] timersRef_clearTimer
                    AList.update_conv' AList.delete_conv')
    with None show ?thesis by (simp add: clearTimer_absent)
  next
    case (Some h)
    from w Some have "h < nextHandle s" by (auto simp: wellFormed_def fresh_def)
    then have hn: "nextHandle s \<noteq> h" by simp
    show ?thesis
      using Some n hn
      by (cases "map_of (timersRef s) x")
         (simp_all add: setTimer_def clearTimer_def clearTimeout_def setTimeout_def Let_def
            AList.update_conv' AList.delete_conv' AList.delete_update AList.delete_twist
            conj_commute)
  qed
qed


lemma fold_clearTimer_setTimer_commute:
  assumes "wellFormed s" and "x \<notin> toast_id ` set ts"
  shows "fold (\<lambda>t. clearTimer (toast_id t)) ts (setTimer x d s) =
         setTimer x d (fold (\<lambda>t. clearTimer (toast_id t)) ts s)"
  using assms
proof (induction ts arbitrary: s)
  case Nil
  then show ?case by simp
next
  case (Cons t ts)
  from Cons.prems have n: "toast_id t \<noteq> x" and r: "x \<notin> toast_id ` set ts" by auto
  have w: "wellFormed (clearTimer (toast_id t) s)"
    by (rule wellFormed_clearTimer [OF Cons.prems(1)])
  show ?case
    by (simp add: clearTimer_setTimer_commute [OF Cons.prems(1) n] Cons.IH [OF w r])
qed

lemma insertToast_setTimer_commute:
  assumes w: "wellFormed s" and m: "1 \<le> maxToasts cfg"
    and f: "toast_id toast \<notin> set (ids s)"
  shows "insertToast cfg toast (setTimer (toast_id toast) d s) =
         setTimer (toast_id toast) d (insertToast cfg toast s)"
proof -
  let ?same = "toast # filter (\<lambda>t. position t = position toast) (toasts s)"
  have "set (sliceFrom (maxToasts cfg) ?same) \<subseteq> set (toasts s)"
  proof -
    from m obtain k where k: "sliceIndex (maxToasts cfg) (length ?same) = Suc k"
      by (cases "sliceIndex (maxToasts cfg) (length ?same)") (auto simp: sliceIndex_def)
    have "set (drop k (filter (\<lambda>t. position t = position toast) (toasts s))) \<subseteq> set (toasts s)"
      using set_drop_subset [of k "filter (\<lambda>t. position t = position toast) (toasts s)"]
      by auto
    then show ?thesis using k by (simp add: sliceFrom_def)
  qed
  with f have "toast_id toast \<notin> toast_id ` set (sliceFrom (maxToasts cfg) ?same)"
    by (auto simp: ids_def)
  from fold_clearTimer_setTimer_commute [OF w this]
  show ?thesis
    by (simp add: insertToast_def Let_def setTimer_toasts_update)
qed

lemma createToast_schedules_agree:
  assumes w: "wellFormed s" and m: "1 \<le> maxToasts cfg"
    and f: "toast_id (newToast cfg rnd msg options (clock s)) \<notin> set (ids s)"
  shows "createToastDeferred cfg rnd msg options s = createToast cfg rnd msg options s"
  by (simp add: createToastDeferred_def createToast_def Let_def
        insertToast_setTimer_commute [OF w m f])

section \<open>Claims\<close>

subsection \<open>C1: update with an explicit duration\<close>

text \<open>
  C1. The claim: \<^verbatim>\<open>update\<close> with an explicit duration cancels the expiry timer of the
  entry and starts a new one, and the duration 0 disables auto-expiry. In the code
  \<^verbatim>\<open>setTimer\<close> returns on a duration that is not positive before it reaches
  \<^verbatim>\<open>clearTimer\<close>. A toast created with duration 1000 and updated to duration 0 has
  the duration 0 and still its expiry timer: 1000 ms after its creation it is
  \<^verbatim>\<open>removing\<close>, and 300 ms later it is gone.
\<close>

theorem update_duration_zero_keeps_expiry_timer:
  "map duration (toasts updatedToZero) = [0] \<and>
   map callback (pending updatedToZero) = [AutoDismiss ''x''] \<and>
   map removing (toasts (advanceTimersByTime 999 updatedToZero)) = [False] \<and>
   map removing (toasts (advanceTimersByTime 1000 updatedToZero)) = [True] \<and>
   toasts (advanceTimersByTime 1300 updatedToZero) = []"
  by (simp add: provider_defs updatedToZero_def)

subsection \<open>C4: the timers that dismissAll cancels\<close>

text \<open>
  C4, as claimed: after \<^verbatim>\<open>dismissAll\<close> no timer of any kind is pending. The purge timer
  of a toast that was dismissed before \<^verbatim>\<open>dismissAll\<close> is still pending after it.
\<close>

theorem dismissAll_leaves_purge_timer_counterexample:
  "pending dismissedThenAll = [\<lparr> handle = 3, due = 300, callback = Purge ''x'' \<rparr>]"
  by (simp add: provider_defs dismissedThenAll_def)

text \<open>
  C4, amended. In every state the provider reaches from its initial state,
  \<^verbatim>\<open>dismissAll\<close> empties \<^verbatim>\<open>timersRef\<close> and cancels every pending expiry timer; the
  timers that stay pending are exactly the purge timers scheduled before, and when they
  run, the list stays empty and no \<^verbatim>\<open>onClose\<close> is called.
\<close>

theorem dismissAll_cancels_expiry_timers:
  "timersRef (dismissAll (run cfg cs initialState)) = [] \<and>
   pending (dismissAll (run cfg cs initialState)) =
     filter isPurge (pending (run cfg cs initialState)) \<and>
   expiryTargets (pending (dismissAll (run cfg cs initialState))) = [] \<and>
   (\<forall>d. toasts (advanceTimersByTime d (dismissAll (run cfg cs initialState))) = [] \<and>
        closeLog (advanceTimersByTime d (dismissAll (run cfg cs initialState))) =
          closeLog (dismissAll (run cfg cs initialState)))"
proof -
  have w: "wellFormed (run cfg cs initialState)" by (rule wellFormed_reachable)
  have e: "expiryTargets (filter isPurge ts) = []" for ts
    by (induction ts) (auto split: TimerCallback.splits)
  show ?thesis
    using empty_stays_empty [of "dismissAll (run cfg cs initialState)"]
    by (simp add: pending_dismissAll_wellFormed [OF w] e advanceTimersByTime_def)
qed

theorem dismissAll_cancels_expiry_timers_witness:
  "map callback (pending (run DEFAULT_CONFIG
       [Create [] ''a'' (noOptions\<lparr> opt_id := Some ''x'' \<rparr>),
        Create [] ''b'' (noOptions\<lparr> opt_id := Some ''y'' \<rparr>),
        Dismiss ''x''] initialState)) = [AutoDismiss ''y'', Purge ''x''] \<and>
   map callback (pending (dismissAll (run DEFAULT_CONFIG
       [Create [] ''a'' (noOptions\<lparr> opt_id := Some ''x'' \<rparr>),
        Create [] ''b'' (noOptions\<lparr> opt_id := Some ''y'' \<rparr>),
        Dismiss ''x''] initialState))) = [Purge ''x'']"
proof -
  let ?s = "run DEFAULT_CONFIG
       [Create [] ''a'' (noOptions\<lparr> opt_id := Some ''x'' \<rparr>),
        Create [] ''b'' (noOptions\<lparr> opt_id := Some ''y'' \<rparr>),
        Dismiss ''x''] initialState"
  have a: "map callback (pending ?s) = [AutoDismiss ''y'', Purge ''x'']"
    by (simp add: provider_defs dismissedThenAll_def)
  have b: "map callback (filter isPurge (pending ?s)) = [Purge ''x'']"
    by (simp add: provider_defs dismissedThenAll_def)
  show ?thesis
    using dismissAll_cancels_expiry_timers [of DEFAULT_CONFIG
      "[Create [] ''a'' (noOptions\<lparr> opt_id := Some ''x'' \<rparr>),
        Create [] ''b'' (noOptions\<lparr> opt_id := Some ''y'' \<rparr>),
        Dismiss ''x'']"] a b
    by simp
qed

subsection \<open>C5: dismissAll empties the list at once\<close>

text \<open>
  C5. In every state, \<^verbatim>\<open>dismissAll\<close> leaves the list of toasts empty at once, and
  calls \<^verbatim>\<open>onClose\<close> once for every toast of the list that has one, in the order of
  the list, whether the toast was \<^verbatim>\<open>removing\<close> or not. However much time passes
  afterwards, the list stays empty and no timer that is still pending calls an
  \<^verbatim>\<open>onClose\<close> again.
\<close>

theorem dismissAll_clears_at_once:
  "toasts (dismissAll s) = [] \<and>
   closeLog (dismissAll s) =
     closeLog s @ map (\<lambda>t. (toast_id t, the (onClose t)))
                    (filter (\<lambda>t. onClose t \<noteq> None) (toasts s)) \<and>
   (\<forall>d. toasts (advanceTimersByTime d (dismissAll s)) = [] \<and>
        closeLog (advanceTimersByTime d (dismissAll s)) = closeLog (dismissAll s))"
  using empty_stays_empty [of "dismissAll s"]
  by (simp add: closeLog_dismissAll advanceTimersByTime_def)

theorem dismissAll_clears_at_once_witness:
  "map removing (toasts threeToasts) = [False, True, False] \<and>
   toasts (dismissAll threeToasts) = [] \<and>
   closeLog (dismissAll threeToasts) = [(''c'', 3), (''a'', 1), (''b'', 2)] \<and>
   toasts (advanceTimersByTime 300 (dismissAll threeToasts)) = [] \<and>
   closeLog (advanceTimersByTime 300 (dismissAll threeToasts)) =
     [(''c'', 3), (''a'', 1), (''b'', 2)]"
proof -
  have r: "map removing (toasts threeToasts) = [False, True, False]"
    by (simp add: provider_defs threeToasts_def)
  have c: "closeLog threeToasts @ map (\<lambda>t. (toast_id t, the (onClose t)))
             (filter (\<lambda>t. onClose t \<noteq> None) (toasts threeToasts)) =
           [(''c'', 3), (''a'', 1), (''b'', 2)]"
    by (simp add: provider_defs threeToasts_def)
  show ?thesis
    using dismissAll_clears_at_once [of threeToasts] r c by simp
qed

subsection \<open>C7: timers of one kind for one entry\<close>

text \<open>
  C7, as claimed: no entry ever has two pending timers of one kind. The provider keeps
  no handle of a purge timer, and every call of \<^verbatim>\<open>dismiss\<close> schedules one more: after
  two calls of \<^verbatim>\<open>dismiss\<close> for a toast, two purge timers for it are pending.
\<close>

theorem two_purge_timers_counterexample:
  "map callback (pending twiceDismissed) = [Purge ''x'', Purge ''x''] \<and>
   length (timersOf (Purge ''x'') twiceDismissed) = 2"
  by (simp add: provider_defs twiceDismissed_def timersOf_def)

text \<open>
  C7, amended. In every state the provider reaches from its initial state, at most one
  expiry timer is pending for an id; \<^verbatim>\<open>setTimer\<close> with a positive duration cancels the
  expiry timer of the id before it schedules the new one, which is then the only one.
  Purge timers are not tracked: \<^verbatim>\<open>dismiss\<close> cancels none of them and adds one.
\<close>

theorem one_expiry_timer_per_id:
  "(\<forall>i. length (timersOf (AutoDismiss i) (run cfg cs initialState)) \<le> 1) \<and>
   (\<forall>i d. 0 < d \<longrightarrow>
      timersOf (AutoDismiss i) (setTimer i d (run cfg cs initialState)) =
        [\<lparr> handle = nextHandle (run cfg cs initialState),
           due = clock (run cfg cs initialState) + hostDelay (nat d),
           callback = AutoDismiss i \<rparr>]) \<and>
   (\<forall>i. timersOf (Purge i) (dismiss i (run cfg cs initialState)) =
        timersOf (Purge i) (run cfg cs initialState) @
          [\<lparr> handle = nextHandle (run cfg cs initialState),
             due = clock (run cfg cs initialState) + 300,
             callback = Purge i \<rparr>])"
proof -
  have w: "wellFormed (run cfg cs initialState)" by (rule wellFormed_reachable)
  then have "distinct (expiryTargets (pending (run cfg cs initialState)))"
    by (simp add: wellFormed_def)
  then have "length (timersOf (AutoDismiss i) (run cfg cs initialState)) \<le> 1" for i
    unfolding timersOf_def by (rule at_most_one_expiry)
  then show ?thesis
    using timersOf_setTimer [OF w] timersOf_dismiss [OF w] by simp
qed

theorem one_expiry_timer_per_id_witness:
  "(0::int) < 500 \<and>
   timersOf (AutoDismiss ''x'') oneCreated = [\<lparr> handle = 1, due = 1000, callback = AutoDismiss ''x'' \<rparr>] \<and>
   timersOf (AutoDismiss ''x'') (setTimer ''x'' 500 oneCreated) =
     [\<lparr> handle = 2, due = 700, callback = AutoDismiss ''x'' \<rparr>]"
proof -
  have a: "timersOf (AutoDismiss ''x'') oneCreated = [\<lparr> handle = 1, due = 1000, callback = AutoDismiss ''x'' \<rparr>]"
    by (simp add: provider_defs twiceDismissed_def oneCreated_def timersOf_def)
  have b: "nextHandle oneCreated = 2" "clock oneCreated = 200"
    by (simp_all add: provider_defs twiceDismissed_def oneCreated_def timersOf_def)
  show ?thesis
    using one_expiry_timer_per_id [of DEFAULT_CONFIG
      "[Create [] ''a'' (noOptions\<lparr> opt_id := Some ''x'', opt_duration := Some 1000 \<rparr>), Advance 200]"]
      a b
    unfolding oneCreated_def [symmetric] by (simp add: hostDelay_def TIMEOUT_MAX_def)
qed

subsection \<open>C10: onClose is called at most once\<close>

text \<open>
  C10. Take an id that at most one toast of the list has and for which no \<^verbatim>\<open>onClose\<close>
  has been called. Whatever calls of \<^verbatim>\<open>dismiss\<close> and \<^verbatim>\<open>dismissAll\<close> follow, and
  however the expiry and purge timers run in between, \<^verbatim>\<open>onClose\<close> is called at most
  once for that id; so it is when \<^verbatim>\<open>dismissAll\<close> is called while the toast is
  \<^verbatim>\<open>removing\<close> and its purge timer runs afterwards.
\<close>

theorem onClose_at_most_once:
  assumes "list_all closing cs" and "alive x s \<le> 1" and "closeCalls x s = 0"
  shows "closeCalls x (run cfg cs s) \<le> 1"
  using balance_run [OF assms(1), of x cfg s] assms(2,3) by simp

theorem onClose_at_most_once_witness:
  "list_all closing [DismissAll, Advance 300, Dismiss ''x'', Advance 300] \<and>
   alive ''x'' removingToast \<le> 1 \<and> closeCalls ''x'' removingToast = 0 \<and>
   map removing (toasts removingToast) = [True] \<and>
   map callback (pending removingToast) = [Purge ''x''] \<and>
   closeLog (run DEFAULT_CONFIG [DismissAll] removingToast) = [(''x'', 7)] \<and>
   map callback (pending (run DEFAULT_CONFIG [DismissAll] removingToast)) = [Purge ''x''] \<and>
   closeCalls ''x''
     (run DEFAULT_CONFIG [DismissAll, Advance 300, Dismiss ''x'', Advance 300] removingToast) \<le> 1"
proof -
  have a: "list_all closing [DismissAll, Advance 300, Dismiss ''x'', Advance 300]"
    by simp
  have b: "alive ''x'' removingToast \<le> 1" "closeCalls ''x'' removingToast = 0"
    by (simp_all add: provider_defs removingToast_def alive_def closeCalls_def)
  have c: "map removing (toasts removingToast) = [True]"
    "map callback (pending removingToast) = [Purge ''x'']"
    "closeLog (run DEFAULT_CONFIG [DismissAll] removingToast) = [(''x'', 7)]"
    "map callback (pending (run DEFAULT_CONFIG [DismissAll] removingToast)) = [Purge ''x'']"
    by (simp_all add: provider_defs removingToast_def alive_def closeCalls_def)
  show ?thesis
    using onClose_at_most_once [OF a b, of DEFAULT_CONFIG] a b c by simp
qed

subsection \<open>C8: ids are unique\<close>

text \<open>
  C8, as claimed: the ids of the toasts of the list differ, whether generated or supplied
  by the caller. \<^verbatim>\<open>createToast\<close> takes the id of the options as it is: two toasts
  created with the same id are both in the list.
\<close>

theorem same_id_twice_counterexample:
  "ids (run DEFAULT_CONFIG
          [Create [] ''a'' (noOptions\<lparr> opt_id := Some ''x'' \<rparr>),
           Create [] ''b'' (noOptions\<lparr> opt_id := Some ''x'' \<rparr>)]
          initialState) = [''x'', ''x''] \<and>
   \<not> distinct (ids (run DEFAULT_CONFIG
          [Create [] ''a'' (noOptions\<lparr> opt_id := Some ''x'' \<rparr>),
           Create [] ''b'' (noOptions\<lparr> opt_id := Some ''x'' \<rparr>)]
          initialState))"
  by (simp add: provider_defs)

text \<open>
  C8, amended. \<^verbatim>\<open>generateToastId\<close> builds ids that begin with \<^verbatim>\<open>toast-\<close>, and it
  builds different ids from different pairs of a clock reading and a random suffix.
  Take a run from the initial state in which no two \<^verbatim>\<open>createToast\<close> calls that
  generate an id read the same clock and the same suffix, every id that a caller supplies
  to \<^verbatim>\<open>createToast\<close> is an id that no toast of the list has at that moment and does
  not begin with \<^verbatim>\<open>toast-\<close>, and no \<^verbatim>\<open>update\<close> passes an id other than the one it is
  called with. Then the ids of the toasts of the list are distinct.
\<close>

theorem ids_unique:
  assumes "suppliedFresh cfg cs initialState" and "distinct (draws cfg cs initialState)"
  shows "distinct (ids (run cfg cs initialState)) \<and>
         (generateToastId now rnd = generateToastId now' rnd' \<longleftrightarrow> now = now' \<and> rnd = rnd')"
proof -
  have "distinct (ids (run cfg cs initialState))"
    by (rule distinct_ids_steps [OF assms, of "{}"]) (simp_all add: ids_def initialState_def)
  then show ?thesis by (simp add: generateToastId_inject)
qed

theorem ids_unique_witness:
  "suppliedFresh DEFAULT_CONFIG
     [Create ''r'' ''a'' noOptions,
      Create [] ''b'' (noOptions\<lparr> opt_id := Some ''x'' \<rparr>),
      Update ''x'' ''c'' (noOptions\<lparr> opt_type := Some Success \<rparr>),
      Create ''q'' ''d'' noOptions] initialState \<and>
   draws DEFAULT_CONFIG
     [Create ''r'' ''a'' noOptions,
      Create [] ''b'' (noOptions\<lparr> opt_id := Some ''x'' \<rparr>),
      Update ''x'' ''c'' (noOptions\<lparr> opt_type := Some Success \<rparr>),
      Create ''q'' ''d'' noOptions] initialState = [(0, ''r''), (0, ''q'')] \<and>
   distinct (ids (run DEFAULT_CONFIG
     [Create ''r'' ''a'' noOptions,
      Create [] ''b'' (noOptions\<lparr> opt_id := Some ''x'' \<rparr>),
      Update ''x'' ''c'' (noOptions\<lparr> opt_type := Some Success \<rparr>),
      Create ''q'' ''d'' noOptions] initialState)) \<and>
   ids (run DEFAULT_CONFIG
     [Create ''r'' ''a'' noOptions,
      Create [] ''b'' (noOptions\<lparr> opt_id := Some ''x'' \<rparr>),
      Update ''x'' ''c'' (noOptions\<lparr> opt_type := Some Success \<rparr>),
      Create ''q'' ''d'' noOptions] initialState) = [''toast-0-q'', ''x'', ''toast-0-r'']"
proof -
  let ?cs = "[Create ''r'' ''a'' noOptions,
      Create [] ''b'' (noOptions\<lparr> opt_id := Some ''x'' \<rparr>),
      Update ''x'' ''c'' (noOptions\<lparr> opt_type := Some Success \<rparr>),
      Create ''q'' ''d'' noOptions]"
  have f: "suppliedFresh DEFAULT_CONFIG ?cs initialState"
    by (simp add: provider_defs supplied_def reserved_def decimal_0)
  have g: "draws DEFAULT_CONFIG ?cs initialState = [(0, ''r''), (0, ''q'')]"
    by (simp add: provider_defs supplied_def decimal_0)
  have d: "distinct (draws DEFAULT_CONFIG ?cs initialState)"
    unfolding g by simp
  have v: "ids (run DEFAULT_CONFIG ?cs initialState) = [''toast-0-q'', ''x'', ''toast-0-r'']"
    by (simp add: provider_defs decimal_0)
  show ?thesis
    using ids_unique [OF f d] f g v by simp
qed

subsection \<open>C2: the limit of toasts per position\<close>



subsection \<open>C3: expiry, then purge\<close>




lemma duration_above_timer_range:
  "map removing (toastsOf ''x'' (advanceTimersByTime 1
     (snd (createToast DEFAULT_CONFIG [] ''long''
        (noOptions\<lparr> opt_id := Some ''x'', opt_duration := Some 2147483648 \<rparr>) initialState)))) =
     [True]"
  by (simp add: provider_defs toastsOf_def)

subsection \<open>C9: an id that matches no entry\<close>

text \<open>
  C9. The operations of the provider are total: none of them fails. In a state that the
  provider reaches from its initial state, let no toast of the list have the id \<open>j\<close>.
  Then \<^verbatim>\<open>dismiss(j)\<close> and \<^verbatim>\<open>update(j, message, options)\<close> leave the list of toasts and
  the log of \<^verbatim>\<open>onClose\<close> calls as they are, and however much time passes afterwards, list
  and log are what they are when the call has not been made.
\<close>

theorem unknown_id_is_noop:
  fixes cfg cs j
  defines "s \<equiv> run cfg cs initialState"
  assumes nj: "j \<notin> set (ids s)"
  shows "toasts (dismiss j s) = toasts s \<and> closeLog (dismiss j s) = closeLog s \<and>
         toasts (update j msg options s) = toasts s \<and>
         closeLog (update j msg options s) = closeLog s \<and>
         (\<forall>d. toasts (advanceTimersByTime d (dismiss j s)) = toasts (advanceTimersByTime d s) \<and>
              closeLog (advanceTimersByTime d (dismiss j s)) =
                closeLog (advanceTimersByTime d s) \<and>
              toasts (advanceTimersByTime d (update j msg options s)) =
                toasts (advanceTimersByTime d s) \<and>
              closeLog (advanceTimersByTime d (update j msg options s)) =
                closeLog (advanceTimersByTime d s))"
proof -
  have w: "wellFormed s" unfolding s_def by (rule wellFormed_reachable)
  have p: "punctual s" unfolding s_def by (rule punctual_reachable)
  let ?c = "withoutTimersFor j s"
  have a0: "aside j s ?c" by (rule aside_core [OF w p nj])
  have a1: "aside j (dismiss j s) ?c" by (rule aside_dismiss [OF w p nj])
  have a2: "aside j (update j msg options s) ?c" by (rule aside_update [OF w p nj])
  have k: "clock (update j msg options s) = clock s"
    by (simp add: update_absent [OF nj] split: option.splits)
  have now: "toasts (dismiss j s) = toasts s" "closeLog (dismiss j s) = closeLog s"
    "toasts (update j msg options s) = toasts s" "closeLog (update j msg options s) = closeLog s"
    using a0 a1 a2 by (simp_all add: aside_def)
  have later: "toasts (advanceTimersByTime d (dismiss j s)) = toasts (advanceTimersByTime d s) \<and>
      closeLog (advanceTimersByTime d (dismiss j s)) = closeLog (advanceTimersByTime d s) \<and>
      toasts (advanceTimersByTime d (update j msg options s)) = toasts (advanceTimersByTime d s) \<and>
      closeLog (advanceTimersByTime d (update j msg options s)) =
        closeLog (advanceTimersByTime d s)" for d
    using aside_runUntil [OF a0, of "clock s + d"] aside_runUntil [OF a1, of "clock s + d"]
      aside_runUntil [OF a2, of "clock s + d"] k
    by (simp add: advanceTimersByTime_def)
  show ?thesis using now later by simp
qed

theorem unknown_id_is_noop_witness:
  "''z'' \<notin> set (ids oneTimed) \<and>
   toasts (dismiss ''z'' oneTimed) = toasts oneTimed \<and>
   toasts (advanceTimersByTime 1000 (dismiss ''z'' oneTimed)) =
     toasts (advanceTimersByTime 1000 oneTimed) \<and>
   map removing (toasts (advanceTimersByTime 1000 oneTimed)) = [True] \<and>
   closeLog (advanceTimersByTime 1300
      (update ''z'' ''b'' (noOptions\<lparr> opt_duration := Some 50 \<rparr>) oneTimed)) = [(''x'', 1)]"
proof -
  have h: "''z'' \<notin> set (ids oneTimed)"
    by (simp add: provider_defs oneTimed_def)
  have v: "map removing (toasts (advanceTimersByTime 1000 oneTimed)) = [True]"
    "closeLog (advanceTimersByTime 1300 oneTimed) = [(''x'', 1)]"
    by (simp_all add: provider_defs oneTimed_def)
  note T = unknown_id_is_noop [OF h [unfolded oneTimed_def], folded oneTimed_def]
  from T [of "''b''" "noOptions\<lparr> opt_duration := Some 50 \<rparr>"] h v show ?thesis
    by simp
qed

subsection \<open>C6: dismiss twice\<close>

text \<open>
  C6. In every state that the provider reaches from its initial state, and for every id,
  calling \<^verbatim>\<open>dismiss\<close> twice in a row gives the list of toasts, the log of \<^verbatim>\<open>onClose\<close>
  calls and the \<^verbatim>\<open>timersRef\<close> map that calling it once gives, at once and however much
  time passes afterwards, that is, also when all timers have run. (The second call
  schedules a second purge timer, which runs behind the first and finds no toast.)
\<close>

theorem dismiss_twice:
  fixes cfg cs i
  defines "s \<equiv> run cfg cs initialState"
  shows "toasts (dismiss i (dismiss i s)) = toasts (dismiss i s) \<and>
         closeLog (dismiss i (dismiss i s)) = closeLog (dismiss i s) \<and>
         timersRef (dismiss i (dismiss i s)) = timersRef (dismiss i s) \<and>
         (\<forall>d. toasts (advanceTimersByTime d (dismiss i (dismiss i s))) =
                toasts (advanceTimersByTime d (dismiss i s)) \<and>
              closeLog (advanceTimersByTime d (dismiss i (dismiss i s))) =
                closeLog (advanceTimersByTime d (dismiss i s)) \<and>
              timersRef (advanceTimersByTime d (dismiss i (dismiss i s))) =
                timersRef (advanceTimersByTime d (dismiss i s)) \<and>
              clock (advanceTimersByTime d (dismiss i (dismiss i s))) =
                clock (advanceTimersByTime d (dismiss i s)))"
proof -
  have w: "wellFormed s" unfolding s_def by (rule wellFormed_reachable)
  have p: "punctual s" unfolding s_def by (rule punctual_reachable)
  have o: "ordered s" unfolding s_def by (rule ordered_reachable)
  have t: "twin (Suc (nextHandle s)) i (dismiss i (dismiss i s)) (dismiss i s)"
    by (rule twin_dismiss [OF w p o])
  have now: "toasts (dismiss i (dismiss i s)) = toasts (dismiss i s)"
    "closeLog (dismiss i (dismiss i s)) = closeLog (dismiss i s)"
    "timersRef (dismiss i (dismiss i s)) = timersRef (dismiss i s)"
    using t by (simp_all add: twin_def)
  show ?thesis
    using now twin_runUntil [OF t, of "clock s + _"]
    by (simp add: advanceTimersByTime_def clock_runUntil)
qed

theorem dismiss_twice_witness:
  "map removing (toasts (dismiss ''x'' (dismiss ''x'' twoToasts))) = [False, True] \<and>
   length (pending (dismiss ''x'' (dismiss ''x'' twoToasts))) =
     Suc (length (pending (dismiss ''x'' twoToasts))) \<and>
   toasts (advanceTimersByTime 600 (dismiss ''x'' (dismiss ''x'' twoToasts))) = [] \<and>
   closeLog (advanceTimersByTime 600 (dismiss ''x'' (dismiss ''x'' twoToasts))) =
     [(''x'', 1), (''y'', 2)]"
proof -
  have v: "map removing (toasts (dismiss ''x'' twoToasts)) = [False, True]"
    "length (pending (dismiss ''x'' (dismiss ''x'' twoToasts))) =
       Suc (length (pending (dismiss ''x'' twoToasts)))"
    "toasts (advanceTimersByTime 600 (dismiss ''x'' twoToasts)) = []"
    "closeLog (advanceTimersByTime 600 (dismiss ''x'' twoToasts)) = [(''x'', 1), (''y'', 2)]"
    by (simp_all add: provider_defs twoToasts_def)
  note T = dismiss_twice [of "''x''" DEFAULT_CONFIG
      "[Create [] ''a'' (noOptions\<lparr> opt_id := Some ''x'', opt_onClose := Some 1 \<rparr>),
        Create [] ''b'' (noOptions\<lparr> opt_id := Some ''y'', opt_duration := Some 200,
                                    opt_onClose := Some 2 \<rparr>)]", folded twoToasts_def]
  from T have a: "toasts (dismiss ''x'' (dismiss ''x'' twoToasts)) = toasts (dismiss ''x'' twoToasts)"
    by (rule conjunct1)
  from T have b: "toasts (advanceTimersByTime 600 (dismiss ''x'' (dismiss ''x'' twoToasts))) =
      toasts (advanceTimersByTime 600 (dismiss ''x'' twoToasts))"
    "closeLog (advanceTimersByTime 600 (dismiss ''x'' (dismiss ''x'' twoToasts))) =
      closeLog (advanceTimersByTime 600 (dismiss ''x'' twoToasts))"
    by blast+
  show ?thesis
    unfolding a b by (intro conjI) (rule v)+
qed

end
